theory Spec2Isabelle
  imports Main "HOL-Library.Char_ord" "HOL-Library.List_Lexorder" "HOL-Library.AList"
begin

section \<open>Strings\<close>

text \<open>
  A Python \<open>str\<close> is modelled as a \<open>string\<close> whose characters are the code points
  U+0000 to U+00FF, one \<open>char\<close> per code point. The character classes below are Python's,
  restricted to that range.
\<close>

definition py_isspace :: "char \<Rightarrow> bool" where
  \<comment> \<open>the code points that \<open>str.strip()\<close> removes and that the class escape for white space
      matches: TAB to CR, FS to US, SPACE, NEL and NBSP\<close>
  "py_isspace c =
     (let n = (of_char c :: nat)
      in (9 \<le> n \<and> n \<le> 13) \<or> (28 \<le> n \<and> n \<le> 32) \<or> n = 133 \<or> n = 160)"

definition py_isdigit :: "char \<Rightarrow> bool" where
  \<comment> \<open>the decimal digits (category Nd) below U+0100\<close>
  "py_isdigit c = (let n = (of_char c :: nat) in 48 \<le> n \<and> n \<le> 57)"

definition py_lower :: "char \<Rightarrow> char" where
  \<comment> \<open>simple lower-casing: A to Z, and the capital letters U+00C0 to U+00DE except U+00D7\<close>
  "py_lower c =
     (let n = (of_char c :: nat)
      in if (65 \<le> n \<and> n \<le> 90) \<or> (192 \<le> n \<and> n \<le> 222 \<and> n \<noteq> 215)
         then char_of (n + 32) else c)"

definition lower :: "string \<Rightarrow> string" where
  "lower s = map py_lower s"

definition strip :: "string \<Rightarrow> string" where
  "strip s = rev (dropWhile py_isspace (rev (dropWhile py_isspace s)))"

fun startswith :: "string \<Rightarrow> string \<Rightarrow> bool" where
  \<comment> \<open>\<open>startswith s p\<close> is \<open>s.startswith(p)\<close>\<close>
  "startswith s [] = True"
| "startswith [] (p # ps) = False"
| "startswith (c # cs) (p # ps) = (c = p \<and> startswith cs ps)"

definition endswith :: "string \<Rightarrow> string \<Rightarrow> bool" where
  "endswith s p = startswith (rev s) (rev p)"

fun contains :: "string \<Rightarrow> string \<Rightarrow> bool" where
  \<comment> \<open>\<open>contains sub s\<close> is \<open>sub in s\<close>\<close>
  "contains sub [] = (sub = [])"
| "contains sub (c # cs) = (startswith (c # cs) sub \<or> contains sub cs)"

function replace :: "string \<Rightarrow> string \<Rightarrow> string \<Rightarrow> string" where
  \<comment> \<open>\<open>replace old new s\<close> is \<open>s.replace(old, new)\<close> for a non-empty \<open>old\<close>: one pass from
      the left over non-overlapping occurrences\<close>
  "replace old new [] = []"
| "replace old new (c # cs) =
     (if old \<noteq> [] \<and> startswith (c # cs) old
      then new @ replace old new (drop (length old) (c # cs))
      else c # replace old new cs)"
  by pat_completeness auto
termination
  by (relation "measure (\<lambda>(old, new, s). length s)") auto

function split_from :: "string \<Rightarrow> string \<Rightarrow> string \<Rightarrow> string list" where
  \<comment> \<open>the pieces of \<open>s\<close> between occurrences of \<open>sep\<close>; \<open>acc\<close> holds the current piece,
      reversed\<close>
  "split_from sep acc [] = [rev acc]"
| "split_from sep acc (c # cs) =
     (if sep \<noteq> [] \<and> startswith (c # cs) sep
      then rev acc # split_from sep [] (drop (length sep) (c # cs))
      else split_from sep (c # acc) cs)"
  by pat_completeness auto
termination
  by (relation "measure (\<lambda>(sep, acc, s). length s)") auto

definition split :: "string \<Rightarrow> string \<Rightarrow> string list" where
  \<comment> \<open>\<open>split sep s\<close> is \<open>s.split(sep)\<close> for a non-empty \<open>sep\<close>, the only way the program
      calls it\<close>
  "split sep s = split_from sep [] s"

section \<open>Value cleanup\<close>

definition clean_value :: "string \<Rightarrow> string" where
  "clean_value v =
     (if v = [] then v
      else let v1 = strip (replace ''R$'' '''' v)
           in if contains ''Base:'' v1 then strip (hd (split ''Base:'' v1)) else v1)"

section \<open>Regular expressions\<close>

text \<open>
  The program hands its patterns to the regular-expression library of Python, always with
  the flag \<open>IGNORECASE\<close>. The library is modelled for the part of the pattern syntax below:
  literals, the dot, character sets with ranges and negation, the class escapes for digits
  and white space, the anchors \<open>^\<close> and \<open>$\<close>, alternation, capturing and non-capturing
  groups, and the quantifiers \<open>*\<close>, \<open>+\<close> and \<open>?\<close>, greedy or lazy. The matcher is a
  backtracking one: it explores alternatives in the library's order and returns the first
  match found, at the leftmost position where one exists.
\<close>

datatype failure =
    Re_error         \<comment> \<open>the library rejects the pattern (\<open>re.error\<close>)\<close>
  | Attribute_error  \<comment> \<open>a method is called on \<open>None\<close>\<close>
  | Index_error      \<comment> \<open>a match is asked for a group that its pattern does not have\<close>
  | Not_modelled     \<comment> \<open>the pattern uses syntax outside the modelled part; no statement is
                         made about the program's behaviour then\<close>

datatype category = Cat_digit | Cat_not_digit | Cat_space | Cat_not_space

datatype set_item = Ch char | Range char char | Category category

datatype at = At_beginning | At_end

datatype rx =
    Empty
  | Literal char
  | Any
  | In bool "set_item list"               \<comment> \<open>a character set; the flag says it is negated\<close>
  | At at
  | Seq rx rx
  | Branch rx rx
  | Repeat nat "nat option" bool rx       \<comment> \<open>least and greatest count, greedy or lazy\<close>
  | Group "nat option" rx                 \<comment> \<open>the group's number; none for \<open>(?:...)\<close>\<close>

subsection \<open>Reading a pattern\<close>

abbreviation backslash :: char where
  "backslash \<equiv> CHR 0x5C"

definition is_ascii_alnum :: "char \<Rightarrow> bool" where
  "is_ascii_alnum c =
     (let n = (of_char c :: nat)
      in (48 \<le> n \<and> n \<le> 57) \<or> (65 \<le> n \<and> n \<le> 90) \<or> (97 \<le> n \<and> n \<le> 122))"

definition class_escape :: "char \<Rightarrow> failure + set_item" where
  \<comment> \<open>the meaning, inside a set, of a backslash followed by \<open>e\<close>\<close>
  "class_escape e =
     (if e = CHR ''a'' then Inr (Ch (CHR 0x07))
      else if e = CHR ''b'' then Inr (Ch (CHR 0x08))
      else if e = CHR ''f'' then Inr (Ch (CHR 0x0C))
      else if e = CHR ''n'' then Inr (Ch (CHR 0x0A))
      else if e = CHR ''r'' then Inr (Ch (CHR 0x0D))
      else if e = CHR ''t'' then Inr (Ch (CHR 0x09))
      else if e = CHR ''v'' then Inr (Ch (CHR 0x0B))
      else if e = CHR ''d'' then Inr (Category Cat_digit)
      else if e = CHR ''D'' then Inr (Category Cat_not_digit)
      else if e = CHR ''s'' then Inr (Category Cat_space)
      else if e = CHR ''S'' then Inr (Category Cat_not_space)
      else if is_ascii_alnum e then Inl Not_modelled
      else Inr (Ch e))"

definition escape :: "char \<Rightarrow> failure + rx" where
  \<comment> \<open>the meaning, outside a set, of a backslash followed by \<open>e\<close>\<close>
  "escape e =
     (if e = CHR ''d'' then Inr (In False [Category Cat_digit])
      else if e = CHR ''D'' then Inr (In False [Category Cat_not_digit])
      else if e = CHR ''s'' then Inr (In False [Category Cat_space])
      else if e = CHR ''S'' then Inr (In False [Category Cat_not_space])
      else if e = CHR ''a'' then Inr (Literal (CHR 0x07))
      else if e = CHR ''f'' then Inr (Literal (CHR 0x0C))
      else if e = CHR ''n'' then Inr (Literal (CHR 0x0A))
      else if e = CHR ''r'' then Inr (Literal (CHR 0x0D))
      else if e = CHR ''t'' then Inr (Literal (CHR 0x09))
      else if e = CHR ''v'' then Inr (Literal (CHR 0x0B))
      else if is_ascii_alnum e then Inl Not_modelled
      else Inr (Literal e))"

fun set_char :: "string \<Rightarrow> failure + (set_item \<times> string)" where
  \<comment> \<open>one member of a set, and the pattern text after it\<close>
  "set_char [] = Inl Re_error"
| "set_char (c # cs) =
     (if c = backslash
      then (case cs of
              [] \<Rightarrow> Inl Re_error
            | e # cs' \<Rightarrow> (case class_escape e of Inl f \<Rightarrow> Inl f | Inr it \<Rightarrow> Inr (it, cs')))
      else Inr (Ch c, cs))"

function set_items :: "bool \<Rightarrow> string \<Rightarrow> failure + (set_item list \<times> string)" where
  \<comment> \<open>the members of a set up to its closing bracket; \<open>first\<close> says that no member has been
      read yet, where a closing bracket stands for itself\<close>
  "set_items first s =
     (case s of
        [] \<Rightarrow> Inl Re_error
      | c # cs \<Rightarrow>
          if c = CHR '']'' \<and> \<not> first then Inr ([], cs)
          else
            (case set_char s of
               Inl f \<Rightarrow> Inl f
             | Inr (code1, s1) \<Rightarrow>
                 (case s1 of
                    [] \<Rightarrow> Inl Re_error
                  | d # s2 \<Rightarrow>
                      if d = CHR ''-'' then
                        (case s2 of
                           [] \<Rightarrow> Inl Re_error
                         | e # s3 \<Rightarrow>
                             if e = CHR '']'' then Inr ([code1, Ch (CHR ''-'')], s3)
                             else
                               (case set_char s2 of
                                  Inl f \<Rightarrow> Inl f
                                | Inr (code2, s4) \<Rightarrow>
                                    (case (code1, code2) of
                                       (Ch lo, Ch hi) \<Rightarrow>
                                         if hi < lo then Inl Re_error
                                         else (case set_items False s4 of
                                                 Inl f \<Rightarrow> Inl f
                                               | Inr (its, r) \<Rightarrow> Inr (Range lo hi # its, r))
                                     | _ \<Rightarrow> Inl Re_error)))
                      else
                        (case set_items False s1 of
                           Inl f \<Rightarrow> Inl f
                         | Inr (its, r) \<Rightarrow> Inr (code1 # its, r)))))"
  by pat_completeness auto
termination
proof -
  have shorter: "length r < length s" if "set_char s = Inr (it, r)" for s it r
    using that by (cases s) (auto split: if_splits list.splits sum.splits)
  show ?thesis
    apply (relation "measure (\<lambda>(first, s). length s)")
      apply simp
     apply (metis shorter in_measure case_prod_conv length_Cons less_Suc_eq less_trans)
    apply (metis shorter in_measure case_prod_conv)
    done
qed

declare set_items.simps [simp del]

definition lex_set :: "string \<Rightarrow> failure + (rx \<times> string)" where
  \<comment> \<open>a set, read from after its opening bracket\<close>
  "lex_set s =
     (case s of
        c # cs \<Rightarrow>
          if c = CHR ''^''
          then (case set_items True cs of Inl f \<Rightarrow> Inl f | Inr (its, r) \<Rightarrow> Inr (In True its, r))
          else (case set_items True s of Inl f \<Rightarrow> Inl f | Inr (its, r) \<Rightarrow> Inr (In False its, r))
      | [] \<Rightarrow> Inl Re_error)"

datatype token =
    T_atom rx
  | T_repeat nat "nat option" bool   \<comment> \<open>a quantifier: least and greatest count, greedy or lazy\<close>
  | T_open bool                      \<comment> \<open>an opening parenthesis, of a capturing group or not\<close>
  | T_close
  | T_or

definition quantifier :: "char \<Rightarrow> (nat \<times> nat option) option" where
  "quantifier c =
     (if c = CHR ''*'' then Some (0, None)
      else if c = CHR ''+'' then Some (1, None)
      else if c = CHR ''?'' then Some (0, Some 1)
      else None)"

definition then_tokens :: "token \<Rightarrow> failure + token list \<Rightarrow> failure + token list" where
  "then_tokens t r = (case r of Inl f \<Rightarrow> Inl f | Inr ts \<Rightarrow> Inr (t # ts))"

function lex :: "string \<Rightarrow> failure + token list" where
  \<comment> \<open>the pattern as a sequence of tokens, read from the left; the first failure met ends
      the reading\<close>
  "lex [] = Inr []"
| "lex (c # cs) =
     (if c = backslash then
        (case cs of
           [] \<Rightarrow> Inl Re_error
         | e # cs' \<Rightarrow>
             (case escape e of Inl f \<Rightarrow> Inl f | Inr a \<Rightarrow> then_tokens (T_atom a) (lex cs')))
      else if c = CHR ''['' then
        (case lex_set cs of Inl f \<Rightarrow> Inl f | Inr (a, r) \<Rightarrow> then_tokens (T_atom a) (lex r))
      else if c = CHR ''{'' then Inl Not_modelled
      else if c = CHR ''*'' \<or> c = CHR ''+'' \<or> c = CHR ''?'' then
        (case quantifier c of
           None \<Rightarrow> Inl Not_modelled
         | Some (lo, hi) \<Rightarrow>
             (case cs of
                [] \<Rightarrow> then_tokens (T_repeat lo hi True) (lex cs)
              | d # cs' \<Rightarrow>
                  if d = CHR ''?'' then then_tokens (T_repeat lo hi False) (lex cs')
                  else if d = CHR ''+'' then Inl Not_modelled
                  else then_tokens (T_repeat lo hi True) (lex cs)))
      else if c = CHR ''('' then
        (case cs of
           [] \<Rightarrow> then_tokens (T_open True) (lex cs)
         | d # cs' \<Rightarrow>
             if d = CHR ''?'' then
               (case cs' of
                  [] \<Rightarrow> Inl Not_modelled
                | e # cs'' \<Rightarrow>
                    if e = CHR '':'' then then_tokens (T_open False) (lex cs'')
                    else Inl Not_modelled)
             else then_tokens (T_open True) (lex cs))
      else if c = CHR '')'' then then_tokens T_close (lex cs)
      else if c = CHR ''|'' then then_tokens T_or (lex cs)
      else if c = CHR ''.'' then then_tokens (T_atom Any) (lex cs)
      else if c = CHR ''^'' then then_tokens (T_atom (At At_beginning)) (lex cs)
      else if c = CHR ''$'' then then_tokens (T_atom (At At_end)) (lex cs)
      else then_tokens (T_atom (Literal c)) (lex cs))"
  by pat_completeness auto
termination
proof -
  have ch: "length r < length s" if "set_char s = Inr (it, r)" for s it r
    using that by (cases s) (auto split: if_splits list.splits sum.splits)
  have si: "length r < length s" if "set_items first s = Inr (its, r)" for first s its r
    using that
  proof (induction s arbitrary: first its r rule: length_induct)
    case (1 s)
    note prem = "1.prems" [unfolded set_items.simps [of first s]]
    show ?case
    proof (cases s)
      case Nil
      then show ?thesis using prem by simp
    next
      case (Cons c cs)
      show ?thesis
      proof (cases "c = CHR '']'' \<and> \<not> first")
        case True
        then show ?thesis using prem Cons by auto
      next
        case False
        then obtain code1 s1 where c1: "set_char s = Inr (code1, s1)"
          using prem Cons by (auto split: sum.splits)
        have l1: "length s1 < length s" using c1 by (rule ch)
        obtain d s2 where s1: "s1 = d # s2"
          using prem Cons False c1 by (auto split: list.splits)
        show ?thesis
        proof (cases "d = CHR ''-''")
          case d: True
          obtain e s3 where s2: "s2 = e # s3"
            using prem Cons False c1 s1 d by (auto split: list.splits)
          show ?thesis
          proof (cases "e = CHR '']''")
            case True
            then show ?thesis using prem Cons False c1 s1 d s2 l1 by auto
          next
            case e: False
            then obtain code2 s4 where c2: "set_char s2 = Inr (code2, s4)"
              using prem Cons False c1 s1 d s2 by (auto split: sum.splits)
            have l2: "length s4 < length s2" using c2 by (rule ch)
            obtain its' where "set_items False s4 = Inr (its', r)"
              using prem Cons False c1 s1 d s2 e c2
              by (auto split: sum.splits set_item.splits if_splits)
            then have "length r < length s4" using "1.IH" l1 l2 s1 by auto
            then show ?thesis using l1 l2 s1 by simp
          qed
        next
          case d: False
          obtain its' where "set_items False s1 = Inr (its', r)"
            using prem Cons False c1 s1 d by (auto split: sum.splits)
          then have "length r < length s1" using "1.IH" l1 by blast
          then show ?thesis using l1 by simp
        qed
      qed
    qed
  qed
  have ls: "length r < Suc (length s)" if h: "lex_set s = Inr (a, r)" for s a r
  proof (cases s)
    case Nil
    then show ?thesis using h by (simp add: lex_set_def)
  next
    case (Cons c cs)
    show ?thesis
    proof (cases "c = CHR ''^''")
      case True
      then obtain its where "set_items True cs = Inr (its, r)"
        using h Cons by (auto simp: lex_set_def split: sum.splits prod.splits)
      then have "length r < length cs" by (rule si)
      then show ?thesis using Cons by simp
    next
      case False
      then obtain its where "set_items True s = Inr (its, r)"
        using h Cons by (auto simp: lex_set_def split: sum.splits prod.splits)
      then have "length r < length s" by (rule si)
      then show ?thesis by simp
    qed
  qed
  show ?thesis
    apply (relation "measure length")
     apply simp_all
    apply (metis ls)
    done
qed

datatype frame = Frame "nat option" "rx list" "rx list"
  \<comment> \<open>a group being read: its number, its finished alternatives and the items of the
      alternative being read, both latest first\<close>

definition seq_of :: "rx list \<Rightarrow> rx" where
  "seq_of items = foldr Seq items Empty"

fun branch_of :: "rx list \<Rightarrow> rx" where
  "branch_of [] = Empty"
| "branch_of [a] = a"
| "branch_of (a # b # bs) = Branch a (branch_of (b # bs))"

fun close_frame :: "frame \<Rightarrow> rx" where
  "close_frame (Frame g alts items) = branch_of (rev (seq_of (rev items) # alts))"

fun frame_group :: "frame \<Rightarrow> nat option" where
  "frame_group (Frame g alts items) = g"

fun build :: "token list \<Rightarrow> frame \<Rightarrow> frame list \<Rightarrow> nat \<Rightarrow> failure + (rx \<times> nat)" where
  \<comment> \<open>\<open>build ts cur stack n\<close>: the expression of the tokens \<open>ts\<close>, read inside the group
      \<open>cur\<close>, itself inside the groups \<open>stack\<close>, after \<open>n\<close> capturing groups were opened;
      the result holds the number of capturing groups\<close>
  "build [] cur stack n = (if stack = [] then Inr (close_frame cur, n) else Inl Re_error)"
| "build (T_atom a # ts) (Frame g alts items) stack n =
     build ts (Frame g alts (a # items)) stack n"
| "build (T_repeat lo hi greedy # ts) (Frame g alts items) stack n =
     (case items of
        [] \<Rightarrow> Inl Re_error
      | a # items' \<Rightarrow>
          (case a of
             At _ \<Rightarrow> Inl Re_error
           | Repeat _ _ _ _ \<Rightarrow> Inl Re_error
           | _ \<Rightarrow> build ts (Frame g alts (Repeat lo hi greedy a # items')) stack n))"
| "build (T_open capturing # ts) cur stack n =
     (if capturing then build ts (Frame (Some (Suc n)) [] []) (cur # stack) (Suc n)
      else build ts (Frame None [] []) (cur # stack) n)"
| "build (T_or # ts) (Frame g alts items) stack n =
     build ts (Frame g (seq_of (rev items) # alts) []) stack n"
| "build (T_close # ts) cur stack n =
     (case stack of
        [] \<Rightarrow> Inl Re_error
      | Frame g alts items # stack' \<Rightarrow>
          build ts (Frame g alts (Group (frame_group cur) (close_frame cur) # items)) stack' n)"

definition compile :: "string \<Rightarrow> failure + (rx \<times> nat)" where
  \<comment> \<open>\<open>re.compile\<close>: the expression and its number of capturing groups\<close>
  "compile p = (case lex p of Inl f \<Rightarrow> Inl f | Inr ts \<Rightarrow> build ts (Frame None [] []) [] 0)"

subsection \<open>Matching\<close>

type_synonym groups = "nat \<Rightarrow> string option"

type_synonym cont = "nat \<Rightarrow> string \<Rightarrow> groups \<Rightarrow> groups option"
  \<comment> \<open>what remains to be matched, from a position, the text left there and the groups
      captured so far\<close>

definition first_of :: "'a option \<Rightarrow> 'a option \<Rightarrow> 'a option" where
  \<comment> \<open>the first alternative that matches\<close>
  "first_of a b = (case a of Some r \<Rightarrow> Some r | None \<Rightarrow> b)"

fun in_category :: "category \<Rightarrow> char \<Rightarrow> bool" where
  "in_category Cat_digit c = py_isdigit c"
| "in_category Cat_not_digit c = (\<not> py_isdigit c)"
| "in_category Cat_space c = py_isspace c"
| "in_category Cat_not_space c = (\<not> py_isspace c)"

definition chars_between :: "char \<Rightarrow> char \<Rightarrow> char list" where
  "chars_between lo hi = map char_of [of_char lo ..< Suc (of_char hi)]"

fun item_matches :: "set_item \<Rightarrow> char \<Rightarrow> bool" where
  \<comment> \<open>letters are compared without regard to case\<close>
  "item_matches (Ch x) c = (py_lower c = py_lower x)"
| "item_matches (Range lo hi) c = list_ex (\<lambda>x. py_lower c = py_lower x) (chars_between lo hi)"
| "item_matches (Category k) c = in_category k c"

definition set_matches :: "bool \<Rightarrow> set_item list \<Rightarrow> char \<Rightarrow> bool" where
  "set_matches negated items c = (list_ex (\<lambda>it. item_matches it c) items \<noteq> negated)"

fun at_holds :: "at \<Rightarrow> nat \<Rightarrow> string \<Rightarrow> bool" where
  \<comment> \<open>\<open>$\<close> holds at the end of the text and before a newline that ends the text\<close>
  "at_holds At_beginning i rest = (i = 0)"
| "at_holds At_end i rest = (rest = [] \<or> rest = [CHR 0x0A])"

function repeat :: "(cont \<Rightarrow> cont) \<Rightarrow> nat \<Rightarrow> nat option \<Rightarrow> bool \<Rightarrow> cont \<Rightarrow> cont" where
  \<comment> \<open>\<open>body\<close> repeated at least \<open>lo\<close> and at most \<open>hi\<close> times, then \<open>k\<close>. A greedy repeat
      tries one more round before it tries to leave, a lazy one the other way round. A round
      that matched the empty string is not followed by another round.\<close>
  "repeat body lo hi greedy k i rest gs =
     (if greedy then
        first_of
          (if hi = Some 0 then None
           else body (\<lambda>j rest' gs'.
                  if length rest' < length rest \<or> (length rest' = length rest \<and> 1 < lo)
                  then repeat body (lo - 1) (map_option (\<lambda>h. h - 1) hi) greedy k j rest' gs'
                  else k j rest' gs') i rest gs)
          (if lo = 0 then k i rest gs else None)
      else
        first_of
          (if lo = 0 then k i rest gs else None)
          (if hi = Some 0 then None
           else body (\<lambda>j rest' gs'.
                  if length rest' < length rest \<or> (length rest' = length rest \<and> 1 < lo)
                  then repeat body (lo - 1) (map_option (\<lambda>h. h - 1) hi) greedy k j rest' gs'
                  else k j rest' gs') i rest gs))"
  by pat_completeness auto
termination
  by (relation "measures [\<lambda>(body, lo, hi, greedy, k, i, rest, gs). length rest,
                          \<lambda>(body, lo, hi, greedy, k, i, rest, gs). lo]") auto

declare repeat.simps [simp del]

primrec matches :: "rx \<Rightarrow> cont \<Rightarrow> cont" where
  \<comment> \<open>\<open>matches r k i rest gs\<close>: the groups of the first way to match \<open>r\<close> and then \<open>k\<close> at
      position \<open>i\<close>, where \<open>rest\<close> is the text from \<open>i\<close> on\<close>
  "matches Empty k = k"
| "matches (Literal x) k =
     (\<lambda>i rest gs. case rest of
        [] \<Rightarrow> None
      | c # cs \<Rightarrow> if py_lower c = py_lower x then k (Suc i) cs gs else None)"
| "matches Any k =
     (\<lambda>i rest gs. case rest of
        [] \<Rightarrow> None
      | c # cs \<Rightarrow> if c \<noteq> CHR 0x0A then k (Suc i) cs gs else None)"
| "matches (In negated items) k =
     (\<lambda>i rest gs. case rest of
        [] \<Rightarrow> None
      | c # cs \<Rightarrow> if set_matches negated items c then k (Suc i) cs gs else None)"
| "matches (At a) k = (\<lambda>i rest gs. if at_holds a i rest then k i rest gs else None)"
| "matches (Seq a b) k = matches a (matches b k)"
| "matches (Branch a b) k =
     (\<lambda>i rest gs. first_of (matches a k i rest gs) (matches b k i rest gs))"
| "matches (Repeat lo hi greedy a) k = repeat (matches a) lo hi greedy k"
| "matches (Group g a) k =
     (\<lambda>i rest gs.
        matches a
          (\<lambda>j rest' gs'.
             k j rest' (case g of None \<Rightarrow> gs' | Some n \<Rightarrow> gs'(n := Some (take (j - i) rest))))
          i rest gs)"

fun search_from :: "rx \<Rightarrow> nat \<Rightarrow> string \<Rightarrow> groups option" where
  \<comment> \<open>the match at the leftmost position, from position \<open>i\<close> on\<close>
  "search_from r i [] = matches r (\<lambda>j rest' gs. Some gs) i [] (\<lambda>n. None)"
| "search_from r i (c # cs) =
     first_of (matches r (\<lambda>j rest' gs. Some gs) i (c # cs) (\<lambda>n. None))
              (search_from r (Suc i) cs)"

record match =
  ngroups :: nat       \<comment> \<open>the number of capturing groups of the pattern\<close>
  captured :: groups   \<comment> \<open>the text of each group that took part in the match\<close>

definition re_search :: "string \<Rightarrow> string \<Rightarrow> failure + match option" where
  \<comment> \<open>\<open>re.search(pattern, text, re.IGNORECASE)\<close>\<close>
  "re_search pattern text =
     (case compile pattern of
        Inl f \<Rightarrow> Inl f
      | Inr (r, n) \<Rightarrow>
          Inr (map_option (\<lambda>gs. \<lparr>ngroups = n, captured = gs\<rparr>) (search_from r 0 text)))"

section \<open>The field matcher\<close>

definition patterns :: "(string \<times> string) list" where
  \<comment> \<open>the table of the known fields; in the source the three patterns are raw strings\<close>
  "patterns =
     [(''Valor Base para Fins Rescisorios'',
       ''Valor Base para Fins :'' @ backslash # ''s*(R'' @ backslash # ''$'' @ backslash #
       ''s*['' @ backslash # ''d'' @ backslash # ''.,]+'' @ backslash # ''s*.*?)(?:'' @
       backslash # ''s*Base:|$)''),
      (''Nome'',
       ''Nome[:'' @ backslash # ''s]*([^'' @ backslash # ''n]+)''),
      (''PIS/PASEP/NIT'',
       ''(PIS/PASEP/NIT|PIS)[:'' @ backslash # ''s]*(['' @ backslash # ''d'' @ backslash #
       ''.'' @ backslash # ''-/]+)'')]"

definition generic_pattern :: "string \<Rightarrow> string" where
  \<comment> \<open>the pattern of an unknown field: an f-string that is not raw, so that the set of the
      group holds the newline character itself\<close>
  "generic_pattern field_name =
     field_name @ ''[:'' @ backslash # ''s]*([^'' @ CHR 0x0A # '']+)''"

definition strip_group :: "match \<Rightarrow> nat \<Rightarrow> failure + string" where
  \<comment> \<open>\<open>match.group(n).strip()\<close>: a group that took no part in the match is \<open>None\<close>, which
      has no method \<open>strip\<close>\<close>
  "strip_group m n =
     (if ngroups m < n then Inl Index_error
      else case captured m n of None \<Rightarrow> Inl Attribute_error | Some g \<Rightarrow> Inr (strip g))"

definition find_field_value :: "string \<Rightarrow> string \<Rightarrow> failure + string option" where
  "find_field_value text field_name =
     (let pattern = (case map_of patterns field_name of
                       Some p \<Rightarrow> p
                     | None \<Rightarrow> generic_pattern field_name)
      in case re_search pattern text of
           Inl f \<Rightarrow> Inl f
         | Inr None \<Rightarrow> Inr None
         | Inr (Some m) \<Rightarrow>
             if field_name = ''PIS/PASEP/NIT'' \<and> 1 < ngroups m
             then (case strip_group m 2 of Inl f \<Rightarrow> Inl f | Inr v \<Rightarrow> Inr (Some v))
             else (case strip_group m 1 of
                     Inl f \<Rightarrow> Inl f
                   | Inr v \<Rightarrow> Inr (Some (clean_value v))))"

section \<open>The batch\<close>

text \<open>
  A run reads its surroundings: the source folder, which is absent or lists entries, what
  reading each entry as a PDF gives, the clock, and whether the CSV file can be written. It
  acts on them by calls to the logger and by writing the CSV file. Both are explicit here: a
  function takes what it reads and returns the log entries it makes, in order, with its
  result. The output folder is taken to be one that can be created, and a source path that
  exists to be a folder that can be listed.
\<close>

datatype level = Debug | Info | Warning | Error

type_synonym log = "(level \<times> string) list"

datatype pdf =
    Unreadable string     \<comment> \<open>opening or reading the file raises, with this message\<close>
  | Pages "string list"   \<comment> \<open>the text extracted from each page\<close>

datatype sink =
    Writable
  | Write_fails string   \<comment> \<open>opening or writing the CSV file raises, with this message\<close>

datatype location =
    Absent
  | Folder "(string \<times> pdf) list"   \<comment> \<open>the names in listing order, with what each holds\<close>

record config =
  source_folder :: string
  output_folder :: string
  fields_to_extract :: "string list"

type_synonym row = "(string \<times> string) list"
  \<comment> \<open>a \<open>dict\<close> from column name to value, in insertion order\<close>

definition path_join :: "string \<Rightarrow> string \<Rightarrow> string" where
  \<comment> \<open>\<open>os.path.join\<close> of a folder and a name from its listing, with the separator \<open>/\<close>\<close>
  "path_join a b = (if a = [] \<or> last a = CHR ''/'' then a @ b else a @ ''/'' @ b)"

definition read_fields :: "string \<Rightarrow> string list" where
  \<comment> \<open>the field names of the configuration entry \<open>fields_to_extract\<close>\<close>
  "read_fields entry = map strip (split '','' entry)"

fun str_nat :: "nat \<Rightarrow> string" where
  \<comment> \<open>\<open>str\<close> of a natural number\<close>
  "str_nat n =
     (if n < 10 then [char_of (48 + n)] else str_nat (n div 10) @ [char_of (48 + n mod 10)])"

declare str_nat.simps [simp del]

fun str_join :: "string \<Rightarrow> string list \<Rightarrow> string" where
  \<comment> \<open>\<open>str_join sep xs\<close> is \<open>sep.join(xs)\<close>\<close>
  "str_join sep [] = []"
| "str_join sep [x] = x"
| "str_join sep (x # y # ys) = x @ sep @ str_join sep (y # ys)"

fun extract_text_from_pdf :: "string \<Rightarrow> pdf \<Rightarrow> log \<times> string" where
  "extract_text_from_pdf pdf_path (Pages ps) = ([], concat (map (\<lambda>p. p @ [CHR 0x0A]) ps))"
| "extract_text_from_pdf pdf_path (Unreadable e) =
     ([(Error, ''Error al leer el archivo '' @ pdf_path @ '': '' @ e)], '''')"

fun fill_fields :: "string \<Rightarrow> string list \<Rightarrow> row \<Rightarrow> log \<times> (failure + row)" where
  \<comment> \<open>the loop over the fields, for one document; an exception of the field matcher ends
      it\<close>
  "fill_fields text [] record = ([], Inr record)"
| "fill_fields text (field # field_names) record =
     (case find_field_value text field of
        Inl f \<Rightarrow> ([], Inl f)
      | Inr value \<Rightarrow>
          (let v = (case value of
                      None \<Rightarrow> ''No encontrado''
                    | Some s \<Rightarrow> if s \<noteq> [] then s else ''No encontrado'');
               (lg, r) = fill_fields text field_names (AList.update field v record)
           in ((Debug, ''Campo '' @ field @ '': '' @ v) # lg, r)))"

fun process_files ::
  "string \<Rightarrow> string list \<Rightarrow> (string \<times> pdf) list \<Rightarrow> row list \<Rightarrow> log \<times> (failure + row list)"
where
  \<comment> \<open>the loop over the files, with the records gathered so far\<close>
  "process_files folder field_names [] results = ([], Inr results)"
| "process_files folder field_names ((pdf_file, content) # files) results =
     (let pdf_path = path_join folder pdf_file;
          entry = (Info, ''Procesando archivo: '' @ pdf_file);
          (lg1, text) = extract_text_from_pdf pdf_path content
      in if text = [] then
           (let (lg, r) = process_files folder field_names files results in (entry # lg1 @ lg, r))
         else
           (case fill_fields text field_names [(''Archivo'', pdf_file)] of
              (lg2, Inl f) \<Rightarrow> (entry # lg1 @ lg2, Inl f)
            | (lg2, Inr record) \<Rightarrow>
                (let (lg, r) = process_files folder field_names files (results @ [record])
                 in (entry # lg1 @ lg2 @ lg, r))))"

definition is_pdf :: "string \<Rightarrow> bool" where
  "is_pdf f = endswith (lower f) ''.pdf''"

definition process_pdfs :: "location \<Rightarrow> config \<Rightarrow> log \<times> (failure + row list)" where
  "process_pdfs source config =
     (case source of
        Absent \<Rightarrow>
          ([(Error, ''La carpeta fuente no existe: '' @ source_folder config)], Inr [])
      | Folder listing \<Rightarrow>
          (let pdf_files = filter (\<lambda>(f, content). is_pdf f) listing
           in if pdf_files = []
              then ([(Warning, ''No se encontraron archivos PDF en la carpeta fuente'')], Inr [])
              else process_files (source_folder config) (fields_to_extract config) pdf_files []))"

record csv_file =
  csv_path :: string
  header :: "string list"
  rows :: "string list list"

definition save_results_to_csv ::
  "sink \<Rightarrow> string \<Rightarrow> row list \<Rightarrow> string \<Rightarrow> log \<times> csv_file option \<times> string"
where
  \<comment> \<open>\<open>out\<close> says whether the file can be opened and written, \<open>timestamp\<close> is the
      clock as the file name has it. The result holds the file written, if any, and the path
      returned. A row holds the value of each column of the header, and the empty string for
      a column that the record lacks. What a failed write leaves on disk is not modelled.\<close>
  "save_results_to_csv out timestamp results folder =
     (if results = [] then ([], None, '''')
      else
        (let path = path_join folder (''br_'' @ timestamp @ ''.csv'');
             fieldnames = sort (remdups (concat (map (map fst) results)))
         in case out of
              Writable \<Rightarrow>
              ([(Info, ''Archivo CSV generado exitosamente: '' @ path)],
               Some \<lparr>csv_path = path, header = fieldnames,
                     rows = map (\<lambda>record.
                              map (\<lambda>k. case map_of (map (\<lambda>(k, v). (k, clean_value v)) record) k of
                                          None \<Rightarrow> '''' | Some v \<Rightarrow> v) fieldnames) results\<rparr>,
               path)
            | Write_fails e \<Rightarrow>
              ([(Error, ''Error al generar archivo CSV: '' @ e)], None, '''')))"

record run =
  run_log :: log
  run_results :: "failure + row list"
  run_csv :: "csv_file option"

definition main :: "location \<Rightarrow> sink \<Rightarrow> string \<Rightarrow> config \<Rightarrow> run" where
  \<comment> \<open>a run, from the configuration read; an exception of \<open>process_pdfs\<close> ends it\<close>
  "main source out timestamp config =
     (let start =
            [(Info, ''Iniciando procesamiento de archivos PDF''),
             (Info, ''Carpeta fuente: '' @ source_folder config),
             (Info, ''Carpeta de salida: '' @ output_folder config),
             (Info, ''Campos a extraer: '' @ str_join '', '' (fields_to_extract config))];
          (lg, r) = process_pdfs source config
      in case r of
           Inl f \<Rightarrow> \<lparr>run_log = start @ lg, run_results = Inl f, run_csv = None\<rparr>
         | Inr results \<Rightarrow>
             if results \<noteq> [] then
               (let (lg', file, path) =
                      save_results_to_csv out timestamp results (output_folder config)
                in \<lparr>run_log = start @ lg @ lg' @
                       [if path \<noteq> []
                        then (Info, ''Proceso completado. '' @ str_nat (length results) @
                                    '' registros procesados.'')
                        else (Error, ''No se pudo generar el archivo CSV'')],
                     run_results = Inr results, run_csv = file\<rparr>)
             else
               \<lparr>run_log = start @ lg @
                  [(Warning, ''No se procesaron registros. Verifique los archivos PDF de entrada.'')],
                run_results = Inr results, run_csv = None\<rparr>)"
section \<open>Properties of the string operations\<close>

lemma strip_ends:
  assumes "strip s \<noteq> []"
  shows "\<not> py_isspace (hd (strip s))" and "\<not> py_isspace (last (strip s))"
proof -
  let ?t = "dropWhile py_isspace s"
  let ?u = "dropWhile py_isspace (rev ?t)"
  have u: "?u \<noteq> []" using assms by (simp add: strip_def)
  have t: "?t \<noteq> []"
  proof
    assume a: "?t = []"
    have "?u = []" unfolding a by simp
    with u show False by blast
  qed
  have "\<not> py_isspace (hd ?u)" using u by (rule hd_dropWhile)
  then show "\<not> py_isspace (last (strip s))"
    using u by (simp add: strip_def last_rev)
  have "rev ?t = takeWhile py_isspace (rev ?t) @ ?u" by simp
  then have "last (rev ?t) = last ?u" using u by (metis last_appendR)
  then have "last ?u = hd ?t" using t by (simp add: last_rev)
  moreover have "\<not> py_isspace (hd ?t)" using t by (rule hd_dropWhile)
  ultimately show "\<not> py_isspace (hd (strip s))"
    using u by (simp add: strip_def hd_rev)
qed

lemma strip_id:
  assumes "s = [] \<or> (\<not> py_isspace (hd s) \<and> \<not> py_isspace (last s))"
  shows "strip s = s"
proof (cases s)
  case Nil
  then show ?thesis by (simp add: strip_def)
next
  case (Cons x xs)
  then have a: "\<not> py_isspace (hd s)" and b: "\<not> py_isspace (last s)" using assms by auto
  have t: "dropWhile py_isspace s = s" using a Cons by simp
  have "rev s \<noteq> []" using Cons by simp
  moreover have "hd (rev s) = last s" using Cons by (simp add: hd_rev)
  ultimately have "dropWhile py_isspace (rev s) = rev s" using b
    by (simp add: dropWhile_eq_self_iff)
  then show ?thesis by (simp add: strip_def t)
qed

lemma strip_strip: "strip (strip s) = strip s"
  by (rule strip_id) (use strip_ends in blast)

lemma startswith_iff: "startswith s p \<longleftrightarrow> (\<exists>t. s = p @ t)"
  by (induction s p rule: startswith.induct) auto

lemma contains_iff: "contains sub s \<longleftrightarrow> (\<exists>a b. s = a @ sub @ b)"
proof (induction s)
  case Nil
  then show ?case by auto
next
  case (Cons c cs)
  show ?case
  proof
    assume "contains sub (c # cs)"
    then consider "startswith (c # cs) sub" | "contains sub cs" by auto
    then show "\<exists>a b. c # cs = a @ sub @ b"
    proof cases
      case 1
      then obtain t where "c # cs = sub @ t" by (auto simp: startswith_iff)
      then have "c # cs = [] @ sub @ t" by simp
      then show ?thesis by blast
    next
      case 2
      then obtain a b where "cs = a @ sub @ b" using Cons.IH by blast
      then have "c # cs = (c # a) @ sub @ b" by simp
      then show ?thesis by blast
    qed
  next
    assume "\<exists>a b. c # cs = a @ sub @ b"
    then obtain a b where ab: "c # cs = a @ sub @ b" by blast
    show "contains sub (c # cs)"
    proof (cases a)
      case Nil
      then have "startswith (c # cs) sub" using ab by (auto simp: startswith_iff)
      then show ?thesis by simp
    next
      case (Cons x xs)
      then have "cs = xs @ sub @ b" using ab by simp
      then have "contains sub cs" using Cons.IH by blast
      then show ?thesis by simp
    qed
  qed
qed

lemma strip_substring: "\<exists>a b. s = a @ strip s @ b"
proof -
  let ?t = "dropWhile py_isspace s"
  let ?u = "dropWhile py_isspace (rev ?t)"
  have "rev ?t = takeWhile py_isspace (rev ?t) @ ?u" by simp
  then have "?t = rev ?u @ rev (takeWhile py_isspace (rev ?t))"
    by (metis rev_append rev_rev_ident)
  moreover have "s = takeWhile py_isspace s @ ?t" by simp
  ultimately have "s = takeWhile py_isspace s @ strip s @ rev (takeWhile py_isspace (rev ?t))"
    by (simp add: strip_def)
  then show ?thesis by blast
qed

lemma length_strip: "length (strip s) \<le> length s"
proof -
  obtain a b where "s = a @ strip s @ b" using strip_substring by blast
  then have "length s = length a + length (strip s) + length b"
    by (metis length_append add.assoc)
  then show ?thesis by simp
qed

lemma contains_strip: "contains sub (strip s) \<Longrightarrow> contains sub s"
proof -
  assume "contains sub (strip s)"
  then obtain a b where 1: "strip s = a @ sub @ b" by (auto simp: contains_iff)
  obtain a' b' where 2: "s = a' @ strip s @ b'" using strip_substring by blast
  have "s = (a' @ a) @ sub @ (b @ b')" by (subst 2) (simp add: 1)
  then show ?thesis unfolding contains_iff by blast
qed

lemma replace_absent: "\<not> contains old s \<Longrightarrow> replace old new s = s"
  by (induction old new s rule: replace.induct) auto

lemma length_replace_le: "length (replace old [] s) \<le> length s"
proof (induction old "[] :: string" s rule: replace.induct)
  case (1 old)
  then show ?case by simp
next
  case (2 old c cs)
  then show ?case by (auto intro: le_trans le_SucI)
qed

lemma length_replace_less:
  "old \<noteq> [] \<Longrightarrow> contains old s \<Longrightarrow> length (replace old [] s) < length s"
proof (induction old "[] :: string" s rule: replace.induct)
  case (1 old)
  then show ?case by simp
next
  case (2 old c cs)
  show ?case
  proof (cases "startswith (c # cs) old")
    case True
    have "length (replace old [] (drop (length old) (c # cs))) \<le> length (drop (length old) (c # cs))"
      by (rule length_replace_le)
    also have "\<dots> < length (c # cs)" using \<open>old \<noteq> []\<close> by simp
    finally show ?thesis using True \<open>old \<noteq> []\<close> by simp
  next
    case False
    then have "contains old cs" using "2.prems" by simp
    then have "length (replace old [] cs) < length cs" using 2 False by simp
    then show ?thesis using False by simp
  qed
qed

lemma split_from_acc: "hd (split_from sep acc s) = rev acc @ hd (split_from sep [] s)"
proof (induction s arbitrary: acc)
  case Nil
  then show ?case by simp
next
  case (Cons c cs)
  show ?case
  proof (cases "sep \<noteq> [] \<and> startswith (c # cs) sep")
    case True
    then show ?thesis by simp
  next
    case False
    have "hd (split_from sep (c # acc) cs) = rev (c # acc) @ hd (split_from sep [] cs)"
      by (rule Cons.IH)
    moreover have "hd (split_from sep [c] cs) = rev [c] @ hd (split_from sep [] cs)"
      by (rule Cons.IH)
    ultimately show ?thesis using False by simp
  qed
qed

lemma split_from_ne: "split_from sep acc s \<noteq> []"
  by (induction sep acc s rule: split_from.induct) auto

lemma hd_split_prefix: "\<exists>r. s = hd (split sep s) @ r"
proof (induction s)
  case Nil
  then show ?case by (simp add: split_def)
next
  case (Cons c cs)
  show ?case
  proof (cases "sep \<noteq> [] \<and> startswith (c # cs) sep")
    case True
    then show ?thesis by (simp add: split_def)
  next
    case False
    then have "hd (split sep (c # cs)) = c # hd (split sep cs)"
      using split_from_acc [of sep "[c]" cs] by (simp add: split_def)
    then show ?thesis using Cons.IH by auto
  qed
qed

lemma length_hd_split: "length (hd (split sep s)) \<le> length s"
proof -
  obtain r where "s = hd (split sep s) @ r" using hd_split_prefix by blast
  then have "length s = length (hd (split sep s)) + length r" by (metis length_append)
  then show ?thesis by simp
qed

lemma hd_split_absent: "sep \<noteq> [] \<Longrightarrow> \<not> contains sep (hd (split sep s))"
proof (induction s)
  case Nil
  then show ?case by (simp add: split_def)
next
  case (Cons c cs)
  show ?case
  proof (cases "startswith (c # cs) sep")
    case True
    then show ?thesis using Cons.prems by (simp add: split_def)
  next
    case False
    then have h: "hd (split sep (c # cs)) = c # hd (split sep cs)"
      using split_from_acc [of sep "[c]" cs] by (simp add: split_def)
    obtain r where r: "cs = hd (split sep cs) @ r" using hd_split_prefix by blast
    have "\<not> startswith (c # hd (split sep cs)) sep"
    proof
      assume "startswith (c # hd (split sep cs)) sep"
      then obtain t where "c # hd (split sep cs) = sep @ t" by (auto simp: startswith_iff)
      then have "c # cs = sep @ (t @ r)" using r by (metis append_Cons append_assoc)
      then show False using False startswith_iff by blast
    qed
    then show ?thesis using h Cons by simp
  qed
qed

lemma strip_Nil: "strip [] = []"
  by (simp add: strip_def)

lemma clean_value_stripped: "strip (clean_value v) = clean_value v"
  by (simp add: clean_value_def Let_def strip_strip strip_Nil)

lemma clean_value_no_terminator: "\<not> contains ''Base:'' (clean_value v)"
proof (cases "v = []")
  case True
  then show ?thesis by (simp add: clean_value_def)
next
  case False
  let ?v1 = "strip (replace ''R$'' '''' v)"
  show ?thesis
  proof (cases "contains ''Base:'' ?v1")
    case True
    have "\<not> contains ''Base:'' (hd (split ''Base:'' ?v1))" by (rule hd_split_absent) simp
    then have "\<not> contains ''Base:'' (strip (hd (split ''Base:'' ?v1)))"
      using contains_strip by blast
    then show ?thesis using True False by (simp add: clean_value_def Let_def)
  next
    case c: False
    then show ?thesis using False by (simp add: clean_value_def Let_def)
  qed
qed

lemma length_clean_value: "length (clean_value v) \<le> length (replace ''R$'' '''' v)"
proof (cases "v = []")
  case True
  then show ?thesis by (simp add: clean_value_def)
next
  case False
  let ?v1 = "strip (replace ''R$'' '''' v)"
  have 1: "length ?v1 \<le> length (replace ''R$'' '''' v)" by (rule length_strip)
  have "length (strip (hd (split ''Base:'' ?v1))) \<le> length (hd (split ''Base:'' ?v1))"
    by (rule length_strip)
  also have "\<dots> \<le> length ?v1" by (rule length_hd_split)
  finally have 2: "length (strip (hd (split ''Base:'' ?v1))) \<le> length (replace ''R$'' '''' v)"
    using 1 by simp
  show ?thesis using False 1 2 by (simp add: clean_value_def Let_def)
qed

lemma clean_value_changes: "contains ''R$'' v \<Longrightarrow> clean_value v \<noteq> v"
proof -
  assume "contains ''R$'' v"
  then have "length (replace ''R$'' '''' v) < length v" by (intro length_replace_less) simp_all
  then have "length (clean_value v) < length v" using length_clean_value [of v] by simp
  then show ?thesis by auto
qed

lemma clean_value_fixed:
  assumes "\<not> contains ''R$'' v" "strip v = v" "\<not> contains ''Base:'' v"
  shows "clean_value v = v"
  using assms by (simp add: clean_value_def replace_absent)


section \<open>Properties of the matcher\<close>

lemma first_of_simps: "first_of (Some r) b = Some r" "first_of None b = b"
  by (simp_all add: first_of_def)

lemma first_of_weak_cong: "a = a' \<Longrightarrow> first_of a b = first_of a' b"
  by simp

lemma matches_literals:
  "matches (foldr Seq (map Literal p) r) k i rest gs =
     (if startswith (lower rest) (lower p)
      then matches r k (i + length p) (drop (length p) rest) gs else None)"
proof (induction p arbitrary: i rest)
  case Nil
  then show ?case by (simp add: lower_def)
next
  case (Cons x xs)
  show ?case
  proof (cases rest)
    case Nil
    then show ?thesis by (simp add: lower_def)
  next
    case (Cons c cs)
    then show ?thesis using Cons.IH [of "Suc i" cs] by (simp add: lower_def)
  qed
qed

lemma search_from_skip:
  "\<forall>j < length pre. matches r (\<lambda>j rest' gs. Some gs) (i + j) (drop j (pre @ rest)) (\<lambda>n. None) = None
   \<Longrightarrow> search_from r i (pre @ rest) = search_from r (i + length pre) rest"
proof (induction pre arbitrary: i)
  case Nil
  then show ?case by simp
next
  case (Cons c pre)
  have 0: "matches r (\<lambda>j rest' gs. Some gs) i (c # pre @ rest) (\<lambda>n. None) = None"
    using Cons.prems [rule_format, of 0] by simp
  have "\<forall>j < length pre. matches r (\<lambda>j rest' gs. Some gs) (Suc i + j) (drop j (pre @ rest)) (\<lambda>n. None) = None"
  proof (intro allI impI)
    fix j assume "j < length pre"
    then show "matches r (\<lambda>j rest' gs. Some gs) (Suc i + j) (drop j (pre @ rest)) (\<lambda>n. None) = None"
      using Cons.prems [rule_format, of "Suc j"] by simp
  qed
  then have "search_from r (Suc i) (pre @ rest) = search_from r (Suc i + length pre) rest"
    by (rule Cons.IH)
  then show ?case using 0 by (simp add: first_of_simps)
qed

lemma search_from_hit:
  "matches r (\<lambda>j rest' gs. Some gs) i rest (\<lambda>n. None) = Some gs \<Longrightarrow> search_from r i rest = Some gs"
  by (cases rest) (simp_all add: first_of_simps)


lemma eq_char_of_iff: "c = char_of n \<longleftrightarrow> take_bit 8 n = (of_char c :: nat)"
  using char_of_eq_iff [of n c] by auto

lemma py_lower_punct:
  assumes "(of_char x :: nat) < 65"
  shows "py_lower c = x \<longleftrightarrow> c = x"
proof (cases "(65 \<le> (of_char c :: nat) \<and> (of_char c :: nat) \<le> 90) \<or>
              (192 \<le> (of_char c :: nat) \<and> (of_char c :: nat) \<le> 222 \<and> (of_char c :: nat) \<noteq> 215)")
  case True
  then have "of_char c + 32 < (256 :: nat)" by auto
  then have "take_bit 8 (of_char c + 32 :: nat) = of_char c + 32"
    by (simp add: take_bit_nat_eq_self_iff)
  then have "py_lower c \<noteq> x"
    using True assms by (auto simp: py_lower_def Let_def char_of_eq_iff)
  moreover have "c \<noteq> x" using True assms by auto
  ultimately show ?thesis by simp
next
  case False
  then show ?thesis by (auto simp: py_lower_def Let_def)
qed

lemma separator_char:
  "set_matches False [Ch CHR '':'', Category Cat_space] c \<longleftrightarrow> c = CHR '':'' \<or> py_isspace c"
  using py_lower_punct [of "CHR '':''" c] by (simp add: set_matches_def py_lower_def)

lemma repeat_set_greedy:
  assumes "\<forall>c \<in> set u. set_matches negated items c"
    and "rest = [] \<or> \<not> set_matches negated items (hd rest)"
    and "lo \<le> length u"
    and "k (i + length u) rest gs = Some r"
  shows "repeat (matches (In negated items)) lo None True k i (u @ rest) gs = Some r"
  using assms
proof (induction u arbitrary: i lo)
  case Nil
  show ?case using Nil.prems by (subst repeat.simps) (cases rest; simp add: first_of_simps)
next
  case (Cons c u)
  have "repeat (matches (In negated items)) (lo - 1) None True k (Suc i) (u @ rest) gs = Some r"
    using Cons.prems by (intro Cons.IH) auto
  then show ?case using Cons.prems(1) by (subst repeat.simps) (simp add: first_of_simps)
qed

lemma startswith_append: "startswith s (p @ q) \<Longrightarrow> startswith s p"
  by (auto simp: startswith_iff)

lemma lower_append: "lower (a @ b) = lower a @ lower b"
  by (simp add: lower_def)

lemma startswith_same: "startswith (p @ s) (p @ q) = startswith s q"
  by (induction p) auto

lemma startswith_self: "startswith (p @ s) p"
  by (induction p) auto


section \<open>Properties of the batch\<close>

lemma fill_fields_keys:
  "fill_fields text fs rec = (lg, Inr r) \<Longrightarrow> set (map fst r) = set (map fst rec) \<union> set fs"
proof (induction fs arbitrary: rec lg)
  case Nil
  then show ?case by simp
next
  case (Cons f fs)
  from Cons.prems obtain "value" where v: "find_field_value text f = Inr value"
    by (cases "find_field_value text f") auto
  define v' where "v' = (case value of None \<Rightarrow> ''No encontrado''
                          | Some s \<Rightarrow> if s \<noteq> [] then s else ''No encontrado'')"
  obtain lg' where "fill_fields text fs (AList.update f v' rec) = (lg', Inr r)"
    using Cons.prems v by (auto simp: v'_def Let_def split: prod.splits)
  then have "set (map fst r) = set (map fst (AList.update f v' rec)) \<union> set fs"
    by (rule Cons.IH)
  then show ?case by (auto simp: dom_update)
qed

lemma fill_fields_distinct:
  "fill_fields text fs rec = (lg, Inr r) \<Longrightarrow> distinct (map fst rec) \<Longrightarrow> distinct (map fst r)"
proof (induction fs arbitrary: rec lg)
  case Nil
  then show ?case by simp
next
  case (Cons f fs)
  from Cons.prems obtain "value" where v: "find_field_value text f = Inr value"
    by (cases "find_field_value text f") auto
  define v' where "v' = (case value of None \<Rightarrow> ''No encontrado''
                          | Some s \<Rightarrow> if s \<noteq> [] then s else ''No encontrado'')"
  obtain lg' where "fill_fields text fs (AList.update f v' rec) = (lg', Inr r)"
    using Cons.prems v by (auto simp: v'_def Let_def split: prod.splits)
  moreover have "distinct (map fst (AList.update f v' rec))"
    using Cons.prems(2) by (rule distinct_update)
  ultimately show ?case by (rule Cons.IH)
qed

lemma fill_fields_lookup:
  "fill_fields text fs rec = (lg, Inr r) \<Longrightarrow>
   (\<forall>f. f \<notin> set fs \<longrightarrow> map_of r f = map_of rec f) \<and>
   (\<forall>f \<in> set fs. \<exists>value. find_field_value text f = Inr value \<and>
      map_of r f = Some (case value of None \<Rightarrow> ''No encontrado''
                         | Some s \<Rightarrow> if s \<noteq> [] then s else ''No encontrado''))"
proof (induction fs arbitrary: rec lg)
  case Nil
  then show ?case by simp
next
  case (Cons f fs)
  from Cons.prems obtain "value" where v: "find_field_value text f = Inr value"
    by (cases "find_field_value text f") auto
  define v' where "v' = (case value of None \<Rightarrow> ''No encontrado''
                          | Some s \<Rightarrow> if s \<noteq> [] then s else ''No encontrado'')"
  obtain lg' where "fill_fields text fs (AList.update f v' rec) = (lg', Inr r)"
    using Cons.prems v by (auto simp: v'_def Let_def split: prod.splits)
  from Cons.IH [OF this]
  have 1: "\<forall>g. g \<notin> set fs \<longrightarrow> map_of r g = map_of (AList.update f v' rec) g"
    and 2: "\<forall>g \<in> set fs. \<exists>value. find_field_value text g = Inr value \<and>
      map_of r g = Some (case value of None \<Rightarrow> ''No encontrado''
                         | Some s \<Rightarrow> if s \<noteq> [] then s else ''No encontrado'')"
    by blast+
  show ?case
  proof (intro conjI allI ballI impI)
    fix g assume "g \<notin> set (f # fs)"
    then show "map_of r g = map_of rec g" using 1 by (simp add: update_conv')
  next
    fix g assume g: "g \<in> set (f # fs)"
    show "\<exists>value. find_field_value text g = Inr value \<and>
      map_of r g = Some (case value of None \<Rightarrow> ''No encontrado''
                         | Some s \<Rightarrow> if s \<noteq> [] then s else ''No encontrado'')"
    proof (cases "g \<in> set fs")
      case True
      then show ?thesis using 2 by blast
    next
      case False
      then have "g = f" using g by simp
      moreover have "map_of r f = Some v'" using 1 False \<open>g = f\<close> by (simp add: update_conv')
      ultimately show ?thesis using v by (simp add: v'_def)
    qed
  qed
qed

lemma process_files_records:
  "process_files folder fs files acc = (lg, Inr rs) \<Longrightarrow>
   \<exists>new. rs = acc @ new \<and>
     (\<forall>r \<in> set new. \<exists>n c lg'. (n, c) \<in> set files \<and>
        fill_fields (snd (extract_text_from_pdf (path_join folder n) c)) fs [(''Archivo'', n)]
          = (lg', Inr r))"
proof (induction files arbitrary: acc lg)
  case Nil
  then show ?case by simp
next
  case (Cons a files)
  obtain n c where a: "a = (n, c)" by (cases a)
  obtain lg1 tx where e: "extract_text_from_pdf (path_join folder n) c = (lg1, tx)"
    by (cases "extract_text_from_pdf (path_join folder n) c")
  show ?case
  proof (cases "tx = []")
    case True
    then obtain lg' where "process_files folder fs files acc = (lg', Inr rs)"
      using Cons.prems a e by (auto simp: Let_def split: prod.splits)
    from Cons.IH [OF this] obtain new where "rs = acc @ new"
      "\<forall>r \<in> set new. \<exists>n c lg'. (n, c) \<in> set files \<and>
        fill_fields (snd (extract_text_from_pdf (path_join folder n) c)) fs [(''Archivo'', n)]
          = (lg', Inr r)" by blast
    then show ?thesis by (metis list.set_intros(2))
  next
    case False
    obtain lg2 res where f: "fill_fields tx fs [(''Archivo'', n)] = (lg2, res)"
      by (cases "fill_fields tx fs [(''Archivo'', n)]")
    obtain rcd where res: "res = Inr rcd"
      using Cons.prems a e f False by (cases res) (auto simp: Let_def split: prod.splits)
    obtain lg' where "process_files folder fs files (acc @ [rcd]) = (lg', Inr rs)"
      using Cons.prems a e f False res by (auto simp: Let_def split: prod.splits)
    from Cons.IH [OF this] obtain new where new: "rs = (acc @ [rcd]) @ new"
      "\<forall>r \<in> set new. \<exists>n c lg'. (n, c) \<in> set files \<and>
        fill_fields (snd (extract_text_from_pdf (path_join folder n) c)) fs [(''Archivo'', n)]
          = (lg', Inr r)" by blast
    have "rs = acc @ (rcd # new)" using new(1) by simp
    moreover have "\<forall>r \<in> set (rcd # new). \<exists>n c lg'. (n, c) \<in> set (a # files) \<and>
        fill_fields (snd (extract_text_from_pdf (path_join folder n) c)) fs [(''Archivo'', n)]
          = (lg', Inr r)"
      using new(2) a e f res by (metis list.set_intros(1) list.set_intros(2) set_ConsD snd_conv)
    ultimately show ?thesis by blast
  qed
qed

lemma process_pdfs_records:
  assumes "process_pdfs source cfg = (lg, Inr rs)" and "r \<in> set rs"
  shows "\<exists>listing n c lg'. source = Folder listing \<and> (n, c) \<in> set listing \<and>
     is_pdf n \<and>
     fill_fields (snd (extract_text_from_pdf (path_join (source_folder cfg) n) c))
       (fields_to_extract cfg) [(''Archivo'', n)] = (lg', Inr r)"
proof (cases source)
  case Absent
  then show ?thesis using assms by (simp add: process_pdfs_def)
next
  case (Folder listing)
  let ?pdfs = "filter (\<lambda>(f, content). is_pdf f) listing"
  show ?thesis
  proof (cases "?pdfs = []")
    case True
    then show ?thesis using assms Folder by (simp add: process_pdfs_def)
  next
    case False
    then have "process_files (source_folder cfg) (fields_to_extract cfg) ?pdfs [] = (lg, Inr rs)"
      using assms Folder by (simp add: process_pdfs_def)
    from process_files_records [OF this] assms(2)
    obtain n c lg' where "(n, c) \<in> set ?pdfs"
      "fill_fields (snd (extract_text_from_pdf (path_join (source_folder cfg) n) c))
       (fields_to_extract cfg) [(''Archivo'', n)] = (lg', Inr r)" by auto
    then show ?thesis using Folder by auto
  qed
qed

lemma fill_fields_total:
  "\<forall>f \<in> set fs. \<exists>v. find_field_value text f = Inr v \<Longrightarrow>
   \<exists>lg r. fill_fields text fs rec = (lg, Inr r)"
proof (induction fs arbitrary: rec)
  case Nil
  then show ?case by simp
next
  case (Cons f fs)
  then obtain v where v: "find_field_value text f = Inr v" by auto
  define v' where "v' = (case v of None \<Rightarrow> ''No encontrado''
                          | Some s \<Rightarrow> if s \<noteq> [] then s else ''No encontrado'')"
  obtain lg r where "fill_fields text fs (AList.update f v' rec) = (lg, Inr r)"
    using Cons.IH [of "AList.update f v' rec"] Cons.prems by auto
  then show ?case using v by (simp add: v'_def)
qed

lemma process_files_all:
  assumes "\<forall>(n, c) \<in> set files. \<forall>f \<in> set fs.
             snd (extract_text_from_pdf (path_join folder n) c) \<noteq> [] \<longrightarrow>
             (\<exists>v. find_field_value (snd (extract_text_from_pdf (path_join folder n) c)) f = Inr v)"
  shows "\<exists>lg rs. process_files folder fs files acc = (lg, Inr (acc @ rs)) \<and>
     map Inr rs =
       map (\<lambda>(n, c). snd (fill_fields (snd (extract_text_from_pdf (path_join folder n) c)) fs
                             [(''Archivo'', n)]))
           (filter (\<lambda>(n, c). snd (extract_text_from_pdf (path_join folder n) c) \<noteq> []) files) \<and>
     (\<forall>n e. (n, Unreadable e) \<in> set files \<longrightarrow>
        (Error, ''Error al leer el archivo '' @ path_join folder n @ '': '' @ e) \<in> set lg)"
  using assms
proof (induction files arbitrary: acc)
  case Nil
  then show ?case by simp
next
  case (Cons a files)
  obtain n c where a: "a = (n, c)" by (cases a)
  obtain lg1 tx where e: "extract_text_from_pdf (path_join folder n) c = (lg1, tx)"
    by (cases "extract_text_from_pdf (path_join folder n) c")
  have lg1: "(Error, ''Error al leer el archivo '' @ path_join folder n @ '': '' @ m) \<in> set lg1"
    if "c = Unreadable m" for m using that e by auto
  have rest: "\<forall>(n, c) \<in> set files. \<forall>f \<in> set fs.
             snd (extract_text_from_pdf (path_join folder n) c) \<noteq> [] \<longrightarrow>
             (\<exists>v. find_field_value (snd (extract_text_from_pdf (path_join folder n) c)) f = Inr v)"
    using Cons.prems by auto
  show ?case
  proof (cases "tx = []")
    case True
    obtain lg rs where ih: "process_files folder fs files acc = (lg, Inr (acc @ rs))"
      "map Inr rs =
       map (\<lambda>(n, c). snd (fill_fields (snd (extract_text_from_pdf (path_join folder n) c)) fs
                             [(''Archivo'', n)]))
           (filter (\<lambda>(n, c). snd (extract_text_from_pdf (path_join folder n) c) \<noteq> []) files)"
      "\<forall>n e. (n, Unreadable e) \<in> set files \<longrightarrow>
        (Error, ''Error al leer el archivo '' @ path_join folder n @ '': '' @ e) \<in> set lg"
      using Cons.IH [OF rest, of acc] by blast
    have "process_files folder fs (a # files) acc
            = ((Info, ''Procesando archivo: '' @ n) # lg1 @ lg, Inr (acc @ rs))"
      using a e True ih(1) by simp
    moreover have "\<forall>n' e. (n', Unreadable e) \<in> set (a # files) \<longrightarrow>
        (Error, ''Error al leer el archivo '' @ path_join folder n' @ '': '' @ e)
          \<in> set ((Info, ''Procesando archivo: '' @ n) # lg1 @ lg)"
      using ih(3) lg1 a by auto
    ultimately show ?thesis using ih(2) a e True by auto
  next
    case False
    have "\<forall>f \<in> set fs. \<exists>v. find_field_value tx f = Inr v"
      using Cons.prems a e False by auto
    then obtain lg2 rcd where f: "fill_fields tx fs [(''Archivo'', n)] = (lg2, Inr rcd)"
      using fill_fields_total by blast
    obtain lg rs where ih: "process_files folder fs files (acc @ [rcd]) = (lg, Inr ((acc @ [rcd]) @ rs))"
      "map Inr rs =
       map (\<lambda>(n, c). snd (fill_fields (snd (extract_text_from_pdf (path_join folder n) c)) fs
                             [(''Archivo'', n)]))
           (filter (\<lambda>(n, c). snd (extract_text_from_pdf (path_join folder n) c) \<noteq> []) files)"
      "\<forall>n e. (n, Unreadable e) \<in> set files \<longrightarrow>
        (Error, ''Error al leer el archivo '' @ path_join folder n @ '': '' @ e) \<in> set lg"
      using Cons.IH [OF rest, of "acc @ [rcd]"] by blast
    have "process_files folder fs (a # files) acc
            = ((Info, ''Procesando archivo: '' @ n) # lg1 @ lg2 @ lg, Inr (acc @ (rcd # rs)))"
      using a e False f ih(1) by simp
    moreover have "\<forall>n' e. (n', Unreadable e) \<in> set (a # files) \<longrightarrow>
        (Error, ''Error al leer el archivo '' @ path_join folder n' @ '': '' @ e)
          \<in> set ((Info, ''Procesando archivo: '' @ n) # lg1 @ lg2 @ lg)"
      using ih(3) lg1 a by auto
    moreover have "map Inr (rcd # rs) =
       map (\<lambda>(n, c). snd (fill_fields (snd (extract_text_from_pdf (path_join folder n) c)) fs
                             [(''Archivo'', n)]))
           (filter (\<lambda>(n, c). snd (extract_text_from_pdf (path_join folder n) c) \<noteq> []) (a # files))"
      using ih(2) a e False f by simp
    ultimately show ?thesis by blast
  qed
qed

text \<open>
  What the log of a batch can hold: the entries of the loop over the fields are at debug
  level, and an entry of the loop over the files that is neither at info nor at debug level
  is the read error of a listed file whose reading raised.
\<close>

lemma fill_fields_log:
  "fill_fields text fs rec = (lg, r) \<Longrightarrow> (l, m) \<in> set lg \<Longrightarrow> l = Debug"
proof (induction fs arbitrary: rec lg r)
  case Nil
  then show ?case by simp
next
  case (Cons f fs)
  show ?case
  proof (cases "find_field_value text f")
    case (Inl e)
    then show ?thesis using Cons.prems by simp
  next
    case (Inr "value")
    define v' where "v' = (case value of None \<Rightarrow> ''No encontrado''
                            | Some s \<Rightarrow> if s \<noteq> [] then s else ''No encontrado'')"
    obtain lg' r' where f: "fill_fields text fs (AList.update f v' rec) = (lg', r')"
      by (cases "fill_fields text fs (AList.update f v' rec)")
    then have "lg = (Debug, ''Campo '' @ f @ '': '' @ v') # lg'"
      using Cons.prems(1) Inr by (simp add: v'_def Let_def)
    then show ?thesis using Cons.prems(2) Cons.IH [OF f] by auto
  qed
qed

lemma extract_text_log:
  "(l, m) \<in> set (fst (extract_text_from_pdf path c)) \<Longrightarrow>
   \<exists>e. c = Unreadable e \<and> l = Error \<and> m = ''Error al leer el archivo '' @ path @ '': '' @ e"
  by (cases c) auto

lemma process_files_log:
  "process_files folder fs files acc = (lg, r) \<Longrightarrow> (l, m) \<in> set lg \<Longrightarrow> l \<noteq> Info \<Longrightarrow>
   l \<noteq> Debug \<Longrightarrow>
   \<exists>n e. (n, Unreadable e) \<in> set files \<and> l = Error \<and>
      m = ''Error al leer el archivo '' @ path_join folder n @ '': '' @ e"
proof (induction files arbitrary: acc lg r)
  case Nil
  then show ?case by simp
next
  case (Cons a files)
  obtain n c where a: "a = (n, c)" by (cases a)
  obtain lg1 tx where e: "extract_text_from_pdf (path_join folder n) c = (lg1, tx)"
    by (cases "extract_text_from_pdf (path_join folder n) c")
  have first: "\<exists>n e. (n, Unreadable e) \<in> set (a # files) \<and> l = Error \<and>
      m = ''Error al leer el archivo '' @ path_join folder n @ '': '' @ e"
    if "(l, m) \<in> set lg1"
    using extract_text_log [of l m "path_join folder n" c] that a e by auto
  have later: "\<exists>n e. (n, Unreadable e) \<in> set (a # files) \<and> l = Error \<and>
      m = ''Error al leer el archivo '' @ path_join folder n @ '': '' @ e"
    if "process_files folder fs files acc' = (lg', r')" "(l, m) \<in> set lg'" for acc' lg' r'
    using Cons.IH [OF that Cons.prems(3,4)] by auto
  show ?case
  proof (cases "tx = []")
    case True
    obtain lg' r' where p: "process_files folder fs files acc = (lg', r')"
      by (cases "process_files folder fs files acc")
    then have "lg = (Info, ''Procesando archivo: '' @ n) # lg1 @ lg'"
      using Cons.prems(1) a e True by simp
    then have "(l, m) \<in> set lg1 \<or> (l, m) \<in> set lg'"
      using Cons.prems(2,3) by auto
    then show ?thesis using first later [OF p] by blast
  next
    case False
    obtain lg2 res where f: "fill_fields tx fs [(''Archivo'', n)] = (lg2, res)"
      by (cases "fill_fields tx fs [(''Archivo'', n)]")
    have no2: "(l, m) \<notin> set lg2" using fill_fields_log [OF f] Cons.prems(4) by blast
    show ?thesis
    proof (cases res)
      case (Inl x)
      then have "lg = (Info, ''Procesando archivo: '' @ n) # lg1 @ lg2"
        using Cons.prems(1) a e f False by simp
      then have "(l, m) \<in> set lg1" using Cons.prems(2,3) no2 by auto
      then show ?thesis by (rule first)
    next
      case (Inr rcd)
      obtain lg' r' where p: "process_files folder fs files (acc @ [rcd]) = (lg', r')"
        by (cases "process_files folder fs files (acc @ [rcd])")
      then have "lg = (Info, ''Procesando archivo: '' @ n) # lg1 @ lg2 @ lg'"
        using Cons.prems(1) a e f False Inr by simp
      then have "(l, m) \<in> set lg1 \<or> (l, m) \<in> set lg'"
        using Cons.prems(2,3) no2 by auto
      then show ?thesis using first later [OF p] by blast
    qed
  qed
qed

lemma process_pdfs_log:
  assumes "process_pdfs (Folder listing) cfg = (lg, r)" and "(l, m) \<in> set lg"
    and "l \<noteq> Info" and "l \<noteq> Debug"
  shows "(\<exists>n e. (n, Unreadable e) \<in> set listing \<and> is_pdf n \<and> l = Error \<and>
            m = ''Error al leer el archivo '' @ path_join (source_folder cfg) n @ '': '' @ e) \<or>
         (\<forall>(n, c) \<in> set listing. \<not> is_pdf n) \<and> l = Warning \<and>
            m = ''No se encontraron archivos PDF en la carpeta fuente''"
proof (cases "filter (\<lambda>(f, content). is_pdf f) listing = []")
  case True
  then have "lg = [(Warning, ''No se encontraron archivos PDF en la carpeta fuente'')]"
    using assms(1) by (simp add: process_pdfs_def)
  moreover have "\<forall>(n, c) \<in> set listing. \<not> is_pdf n"
    using True by (auto simp: filter_empty_conv)
  ultimately show ?thesis using assms(2) by simp
next
  case False
  then have "process_files (source_folder cfg) (fields_to_extract cfg)
               (filter (\<lambda>(f, content). is_pdf f) listing) [] = (lg, r)"
    using assms(1) by (simp add: process_pdfs_def)
  from process_files_log [OF this assms(2,3,4)] show ?thesis by auto
qed

section \<open>The currency field\<close>

lemma compile_currency:
  "compile (the (map_of patterns ''Valor Base para Fins Rescisorios'')) =
     Inr (foldr Seq (map Literal ''Valor Base para Fins :'')
           (Seq (Repeat 0 None True (In False [Category Cat_space]))
             (Seq (Group (Some 1)
                    (Seq (Literal CHR ''R'')
                      (Seq (Literal CHR ''$'')
                        (Seq (Repeat 0 None True (In False [Category Cat_space]))
                          (Seq (Repeat 1 None True
                                 (In False [Category Cat_digit, Ch CHR ''.'', Ch CHR '','']))
                            (Seq (Repeat 0 None True (In False [Category Cat_space]))
                              (Seq (Repeat 0 None False Any) Empty)))))))
               (Seq (Group None
                      (Branch
                        (Seq (Repeat 0 None True (In False [Category Cat_space]))
                          (foldr Seq (map Literal ''Base:'') Empty))
                        (Seq (At At_end) Empty)))
                 Empty))), 1)"
  by code_simp

lemma match_currency:
  "matches (Seq (Repeat 0 None True (In False [Category Cat_space]))
             (Seq (Group (Some 1)
                    (Seq (Literal CHR ''R'')
                      (Seq (Literal CHR ''$'')
                        (Seq (Repeat 0 None True (In False [Category Cat_space]))
                          (Seq (Repeat 1 None True
                                 (In False [Category Cat_digit, Ch CHR ''.'', Ch CHR '','']))
                            (Seq (Repeat 0 None True (In False [Category Cat_space]))
                              (Seq (Repeat 0 None False Any) Empty)))))))
               (Seq (Group None
                      (Branch
                        (Seq (Repeat 0 None True (In False [Category Cat_space]))
                          (foldr Seq (map Literal ''Base:'') Empty))
                        (Seq (At At_end) Empty)))
                 Empty)))
      (\<lambda>j rest' gs. Some gs) i ('' R$ 1.234,56 Base: R$ 1.000,00'' @ post) (\<lambda>n. None)
   = Some ((\<lambda>n. None)(1 := Some ''R$ 1.234,56 ''))"
  by (simp add: repeat.simps first_of_simps set_matches_def py_isspace_def py_isdigit_def
        py_lower_def char_of_eq_iff cong: first_of_weak_cong split del: if_split)

text \<open>
  Claim C1, as the code has it. For the field \<open>Valor Base para Fins Rescisorios\<close>, in a
  text where \<open>Valor Base para Fins : R$ 1.234,56 Base: R$ 1.000,00\<close> is the first place
  at which the label \<open>Valor Base para Fins :\<close> begins, in any letter case, the value
  found is \<open>1.234,56\<close>, whatever comes before and after. The search returns the match
  at the leftmost position, so an earlier label with an amount decides the value.
\<close>

theorem currency_value:
  assumes "\<forall>j < length pre.
     \<not> startswith
          (lower (drop j (pre @ ''Valor Base para Fins : R$ 1.234,56 Base: R$ 1.000,00'' @ post)))
          (lower ''Valor Base para Fins :'')"
  shows "find_field_value
           (pre @ ''Valor Base para Fins : R$ 1.234,56 Base: R$ 1.000,00'' @ post)
           ''Valor Base para Fins Rescisorios'' = Inr (Some ''1.234,56'')"
proof -
  let ?text = "pre @ ''Valor Base para Fins : R$ 1.234,56 Base: R$ 1.000,00'' @ post"
  obtain r where c: "compile (the (map_of patterns ''Valor Base para Fins Rescisorios''))
      = Inr (foldr Seq (map Literal ''Valor Base para Fins :'') r, 1)"
    and m: "\<And>i post. matches r (\<lambda>j rest' gs. Some gs) i
               ('' R$ 1.234,56 Base: R$ 1.000,00'' @ post) (\<lambda>n. None)
             = Some ((\<lambda>n. None)(1 := Some ''R$ 1.234,56 ''))"
    using compile_currency match_currency by blast
  let ?r = "foldr Seq (map Literal ''Valor Base para Fins :'') r"
  have miss: "\<forall>j < length pre.
      matches ?r (\<lambda>j rest' gs. Some gs) (0 + j)
        (drop j (pre @ (''Valor Base para Fins : R$ 1.234,56 Base: R$ 1.000,00'' @ post)))
        (\<lambda>n. None) = None"
    using assms by (simp only: matches_literals) simp
  have hit: "matches ?r (\<lambda>j rest' gs. Some gs) (0 + length pre)
               (''Valor Base para Fins : R$ 1.234,56 Base: R$ 1.000,00'' @ post) (\<lambda>n. None)
               = Some ((\<lambda>n. None)(1 := Some ''R$ 1.234,56 ''))"
    using m [of _ post] by (subst matches_literals) (simp add: lower_def)
  have "search_from ?r 0 ?text = Some ((\<lambda>n. None)(1 := Some ''R$ 1.234,56 ''))"
    using search_from_skip [OF miss] search_from_hit [OF hit] by simp
  moreover have p: "map_of patterns ''Valor Base para Fins Rescisorios''
                      = Some (the (map_of patterns ''Valor Base para Fins Rescisorios''))"
    by code_simp
  ultimately have "re_search (the (map_of patterns ''Valor Base para Fins Rescisorios'')) ?text
               = Inr (Some \<lparr>ngroups = 1, captured = (\<lambda>n. None)(1 := Some ''R$ 1.234,56 '')\<rparr>)"
    by (simp add: re_search_def c)
  moreover have "clean_value (strip ''R$ 1.234,56 '') = ''1.234,56''" by code_simp
  ultimately show ?thesis
    by (subst find_field_value_def, subst p) (simp add: strip_group_def)
qed

theorem currency_value_witness:
  "find_field_value
     (''Empresa X'' @ CHR 0x0A # ''Valor Base para Fins : R$ 1.234,56 Base: R$ 1.000,00'' @
      [CHR 0x0A])
     ''Valor Base para Fins Rescisorios'' = Inr (Some ''1.234,56'')"
  using currency_value [of "''Empresa X'' @ [CHR 0x0A]" "[CHR 0x0A]"]
  by (simp add: lower_def py_lower_def char_of_eq_iff eq_char_of_iff nth_Cons' less_Suc_eq)

theorem currency_first_occurrence_wins:
  "find_field_value
     (''Valor Base para Fins : R$ 9,00 Base: R$ 5,00'' @ CHR 0x0A #
      ''Valor Base para Fins : R$ 1.234,56 Base: R$ 1.000,00'')
     ''Valor Base para Fins Rescisorios'' = Inr (Some ''9,00'')"
  by code_simp


section \<open>Idempotence of the cleanup\<close>

text \<open>
  Claim C2, as the code has it: cleaning a cleaned value gives the same value exactly when
  the cleaned value holds no currency marker \<open>R$\<close>. The marker is removed in one pass from
  the left, so removing one occurrence can bring an \<open>R\<close> and a \<open>$\<close> together; a second
  cleanup then removes the marker so formed.
\<close>

theorem clean_value_idempotent_iff:
  "clean_value (clean_value v) = clean_value v \<longleftrightarrow> \<not> contains ''R$'' (clean_value v)"
  using clean_value_changes [of "clean_value v"]
    clean_value_fixed [OF _ clean_value_stripped clean_value_no_terminator, of v]
  by blast

text \<open>The value \<open>RR$$\<close> is cleaned to \<open>R$\<close>, and that to the empty string.\<close>

theorem clean_value_not_idempotent:
  "clean_value (clean_value ''RR$$'') \<noteq> clean_value ''RR$$''"
  by (simp add: clean_value_def strip_def py_isspace_def split_def)

theorem clean_value_idempotent_iff_witness:
  "clean_value (clean_value ''R$ 1.234,56 Base: R$ 1.000,00'')
     = clean_value ''R$ 1.234,56 Base: R$ 1.000,00''
   \<and> \<not> contains ''R$'' (clean_value ''R$ 1.234,56 Base: R$ 1.000,00'')"
  using clean_value_idempotent_iff [of "''R$ 1.234,56 Base: R$ 1.000,00''"]
  by (simp add: clean_value_def strip_def py_isspace_def split_def)

section \<open>Field names that are not patterns\<close>

text \<open>
  Claim C3 says that the field matcher never raises. The name of an unknown field is put
  into the pattern as it is, so a name such as \<open>*Obs\<close> makes a pattern that the
  library rejects, whatever the text.
\<close>

theorem unescaped_field_name_raises:
  "find_field_value text ''*Obs'' = Inl Re_error"
proof -
  have "compile (generic_pattern ''*Obs'') = Inl Re_error" by code_simp
  moreover have "map_of patterns ''*Obs'' = None" by code_simp
  ultimately show ?thesis by (simp add: find_field_value_def re_search_def)
qed


section \<open>Rectangular records\<close>

text \<open>
  Claim C4: every record that the batch produces has as its keys the identifier column
  \<open>Archivo\<close> and every configured field name, each once, whichever fields were found in
  its document. The record is the one that the loop over the fields builds from the text of
  a listed PDF, its own document: unless a field is itself named \<open>Archivo\<close>, the
  identifier column holds the name of that document; a field that the matcher did not find
  in the text of that document holds the placeholder \<open>No encontrado\<close>, and no configured
  field is without an entry.
\<close>

theorem record_keys:
  assumes "process_pdfs source cfg = (lg, Inr rs)" and "r \<in> set rs"
  shows "set (map fst r) = insert ''Archivo'' (set (fields_to_extract cfg)) \<and>
         distinct (map fst r) \<and>
         (\<exists>listing n c lg'. source = Folder listing \<and> (n, c) \<in> set listing \<and> is_pdf n \<and>
            fill_fields (snd (extract_text_from_pdf (path_join (source_folder cfg) n) c))
              (fields_to_extract cfg) [(''Archivo'', n)] = (lg', Inr r) \<and>
            (''Archivo'' \<notin> set (fields_to_extract cfg) \<longrightarrow> map_of r ''Archivo'' = Some n) \<and>
            (\<forall>f \<in> set (fields_to_extract cfg).
               (find_field_value
                  (snd (extract_text_from_pdf (path_join (source_folder cfg) n) c)) f = Inr None
                \<longrightarrow> map_of r f = Some ''No encontrado'') \<and>
               map_of r f \<noteq> None))"
proof -
  obtain listing n c lg' where l: "source = Folder listing" "(n, c) \<in> set listing" "is_pdf n"
    and f: "fill_fields (snd (extract_text_from_pdf (path_join (source_folder cfg) n) c))
       (fields_to_extract cfg) [(''Archivo'', n)] = (lg', Inr r)"
    using process_pdfs_records [OF assms] by blast
  let ?text = "snd (extract_text_from_pdf (path_join (source_folder cfg) n) c)"
  have "set (map fst r) = insert ''Archivo'' (set (fields_to_extract cfg))"
    using fill_fields_keys [OF f] by simp
  moreover have "distinct (map fst r)" using fill_fields_distinct [OF f] by simp
  moreover have "''Archivo'' \<notin> set (fields_to_extract cfg) \<longrightarrow> map_of r ''Archivo'' = Some n"
    using fill_fields_lookup [OF f] by simp
  moreover have "\<forall>f \<in> set (fields_to_extract cfg).
            (find_field_value ?text f = Inr None \<longrightarrow> map_of r f = Some ''No encontrado'') \<and>
            map_of r f \<noteq> None"
    using fill_fields_lookup [OF f] by (fastforce split: option.splits if_splits)
  ultimately show ?thesis using l f by blast
qed

theorem record_keys_witness:
  "process_pdfs (Folder [(''a.pdf'', Pages [''Nome: Ana''])])
     \<lparr>source_folder = ''in'', output_folder = ''out'',
      fields_to_extract = [''Nome'', ''PIS/PASEP/NIT'']\<rparr>
   = ([(Info, ''Procesando archivo: a.pdf''), (Debug, ''Campo Nome: Ana''),
       (Debug, ''Campo PIS/PASEP/NIT: No encontrado'')],
      Inr [[(''Archivo'', ''a.pdf''), (''Nome'', ''Ana''), (''PIS/PASEP/NIT'', ''No encontrado'')]])
   \<and> set (map fst [(''Archivo'', ''a.pdf''), (''Nome'', ''Ana''),
                    (''PIS/PASEP/NIT'', ''No encontrado'')])
       = insert ''Archivo'' (set [''Nome'', ''PIS/PASEP/NIT''])"
proof -
  have run: "process_pdfs (Folder [(''a.pdf'', Pages [''Nome: Ana''])])
     \<lparr>source_folder = ''in'', output_folder = ''out'',
      fields_to_extract = [''Nome'', ''PIS/PASEP/NIT'']\<rparr>
   = ([(Info, ''Procesando archivo: a.pdf''), (Debug, ''Campo Nome: Ana''),
       (Debug, ''Campo PIS/PASEP/NIT: No encontrado'')],
      Inr [[(''Archivo'', ''a.pdf''), (''Nome'', ''Ana''), (''PIS/PASEP/NIT'', ''No encontrado'')]])"
    by code_simp
  show ?thesis using record_keys [OF run, of "[(''Archivo'', ''a.pdf''), (''Nome'', ''Ana''),
                    (''PIS/PASEP/NIT'', ''No encontrado'')]"] run by simp
qed


section \<open>Documents that cannot be read\<close>

text \<open>
  Claim C5, as the code has it. Provided the field matcher raises for no configured field
  on the text of a document, the batch returns one record for each listed PDF whose text is
  not empty, in listing order, and no record for the others; for each PDF whose reading
  raises, the log holds an error entry that names it. These are the only failures reported:
  every entry of the log at error or warning level is the read error of a listed PDF whose
  reading raised or, when no listed name is a PDF, the warning that none was found. So a
  PDF that is read without an error and has no page, which gives the empty text, is left out
  as well, and no error or warning reports it.
\<close>

theorem batch_skips_unread_documents:
  assumes "source = Folder listing"
    and "\<forall>(n, c) \<in> set listing. \<forall>f \<in> set (fields_to_extract cfg).
           is_pdf n \<and> snd (extract_text_from_pdf (path_join (source_folder cfg) n) c) \<noteq> [] \<longrightarrow>
           (\<exists>v. find_field_value
                   (snd (extract_text_from_pdf (path_join (source_folder cfg) n) c)) f = Inr v)"
  shows "\<exists>lg rs. process_pdfs source cfg = (lg, Inr rs) \<and>
     map Inr rs =
       map (\<lambda>(n, c). snd (fill_fields
                             (snd (extract_text_from_pdf (path_join (source_folder cfg) n) c))
                             (fields_to_extract cfg) [(''Archivo'', n)]))
           (filter (\<lambda>(n, c). is_pdf n \<and>
                      snd (extract_text_from_pdf (path_join (source_folder cfg) n) c) \<noteq> [])
                   listing) \<and>
     (\<forall>n e. (n, Unreadable e) \<in> set listing \<and> is_pdf n \<longrightarrow>
        (Error, ''Error al leer el archivo '' @ path_join (source_folder cfg) n @ '': '' @ e)
          \<in> set lg) \<and>
     (\<forall>l m. (l, m) \<in> set lg \<and> (l = Error \<or> l = Warning) \<longrightarrow>
        (\<exists>n e. (n, Unreadable e) \<in> set listing \<and> is_pdf n \<and> l = Error \<and>
           m = ''Error al leer el archivo '' @ path_join (source_folder cfg) n @ '': '' @ e) \<or>
        (\<forall>(n, c) \<in> set listing. \<not> is_pdf n) \<and> l = Warning \<and>
           m = ''No se encontraron archivos PDF en la carpeta fuente'')"
proof -
  let ?pdfs = "filter (\<lambda>(f, content). is_pdf f) listing"
  let ?tx = "\<lambda>n c. snd (extract_text_from_pdf (path_join (source_folder cfg) n) c)"
  have flt: "filter (\<lambda>(n, c). ?tx n c \<noteq> []) ?pdfs
               = filter (\<lambda>(n, c). is_pdf n \<and> ?tx n c \<noteq> []) listing"
    by (induction listing) auto
  have "\<exists>lg rs. process_pdfs source cfg = (lg, Inr rs) \<and>
     map Inr rs =
       map (\<lambda>(n, c). snd (fill_fields (?tx n c) (fields_to_extract cfg) [(''Archivo'', n)]))
           (filter (\<lambda>(n, c). is_pdf n \<and> ?tx n c \<noteq> []) listing) \<and>
     (\<forall>n e. (n, Unreadable e) \<in> set listing \<and> is_pdf n \<longrightarrow>
        (Error, ''Error al leer el archivo '' @ path_join (source_folder cfg) n @ '': '' @ e)
          \<in> set lg)"
  proof (cases "?pdfs = []")
    case True
    then have "filter (\<lambda>(n, c). is_pdf n \<and> ?tx n c \<noteq> []) listing = []"
      using flt by (metis filter.simps(1))
    moreover have "\<forall>n e. \<not> ((n, Unreadable e) \<in> set listing \<and> is_pdf n)"
      using True by (auto simp: filter_empty_conv)
    ultimately show ?thesis using True assms(1) by (simp add: process_pdfs_def)
  next
    case False
    have "\<forall>(n, c) \<in> set ?pdfs. \<forall>f \<in> set (fields_to_extract cfg).
             ?tx n c \<noteq> [] \<longrightarrow> (\<exists>v. find_field_value (?tx n c) f = Inr v)"
      using assms(2) by auto
    from process_files_all [OF this, of "[]"]
    obtain lg rs where
      "process_files (source_folder cfg) (fields_to_extract cfg) ?pdfs [] = (lg, Inr rs)"
      "map Inr rs =
         map (\<lambda>(n, c). snd (fill_fields (?tx n c) (fields_to_extract cfg) [(''Archivo'', n)]))
           (filter (\<lambda>(n, c). ?tx n c \<noteq> []) ?pdfs)"
      "\<forall>n e. (n, Unreadable e) \<in> set ?pdfs \<longrightarrow>
        (Error, ''Error al leer el archivo '' @ path_join (source_folder cfg) n @ '': '' @ e)
          \<in> set lg"
      by auto
    then show ?thesis using False assms(1) flt by (auto simp: process_pdfs_def)
  qed
  then obtain lg rs where run: "process_pdfs source cfg = (lg, Inr rs)"
    and rest: "map Inr rs =
       map (\<lambda>(n, c). snd (fill_fields (?tx n c) (fields_to_extract cfg) [(''Archivo'', n)]))
           (filter (\<lambda>(n, c). is_pdf n \<and> ?tx n c \<noteq> []) listing)"
     "\<forall>n e. (n, Unreadable e) \<in> set listing \<and> is_pdf n \<longrightarrow>
        (Error, ''Error al leer el archivo '' @ path_join (source_folder cfg) n @ '': '' @ e)
          \<in> set lg"
    by blast
  have "(\<exists>n e. (n, Unreadable e) \<in> set listing \<and> is_pdf n \<and> l = Error \<and>
           m = ''Error al leer el archivo '' @ path_join (source_folder cfg) n @ '': '' @ e) \<or>
        (\<forall>(n, c) \<in> set listing. \<not> is_pdf n) \<and> l = Warning \<and>
           m = ''No se encontraron archivos PDF en la carpeta fuente''"
    if "(l, m) \<in> set lg" "l = Error \<or> l = Warning" for l m
    using process_pdfs_log [of listing cfg lg "Inr rs" l m] run assms(1) that by auto
  then show ?thesis using run rest by blast
qed

theorem batch_skips_unread_documents_witness:
  "\<exists>lg r1 r2.
     process_pdfs
       (Folder [(''a.pdf'', Pages [''Nome: Ana'']), (''b.pdf'', Unreadable ''no PDF header''),
                     (''c.pdf'', Pages [''Nome: Rui''])])
       \<lparr>source_folder = ''in'', output_folder = ''out'', fields_to_extract = [''Nome'']\<rparr>
     = (lg, Inr [r1, r2]) \<and>
     (Error, ''Error al leer el archivo in/b.pdf: no PDF header'') \<in> set lg"
proof -
  let ?listing = "[(''a.pdf'', Pages [''Nome: Ana'']), (''b.pdf'', Unreadable ''no PDF header''),
                     (''c.pdf'', Pages [''Nome: Rui''])]"
  let ?cfg = "\<lparr>source_folder = ''in'', output_folder = ''out'', fields_to_extract = [''Nome'']\<rparr>"
  have 1: "find_field_value (''Nome: Ana'' @ [CHR 0x0A]) ''Nome'' = Inr (Some ''Ana'')"
    by code_simp
  have 2: "find_field_value (''Nome: Rui'' @ [CHR 0x0A]) ''Nome'' = Inr (Some ''Rui'')"
    by code_simp
  have pdf: "is_pdf ''a.pdf''" "is_pdf ''b.pdf''" "is_pdf ''c.pdf''"
    by code_simp+
  have "\<forall>(n, c) \<in> set ?listing. \<forall>f \<in> set (fields_to_extract ?cfg).
           is_pdf n \<and> snd (extract_text_from_pdf (path_join (source_folder ?cfg) n) c) \<noteq> [] \<longrightarrow>
           (\<exists>v. find_field_value
                   (snd (extract_text_from_pdf (path_join (source_folder ?cfg) n) c)) f = Inr v)"
    using 1 2 by simp
  from batch_skips_unread_documents [of "Folder ?listing" ?listing ?cfg, OF refl this]
  obtain lg rs where r: "process_pdfs (Folder ?listing) ?cfg = (lg, Inr rs)"
    "map Inr rs =
       map (\<lambda>(n, c). snd (fill_fields
                             (snd (extract_text_from_pdf (path_join (source_folder ?cfg) n) c))
                             (fields_to_extract ?cfg) [(''Archivo'', n)]))
           (filter (\<lambda>(n, c). is_pdf n \<and>
                      snd (extract_text_from_pdf (path_join (source_folder ?cfg) n) c) \<noteq> [])
                   ?listing)"
    "\<forall>n e. (n, Unreadable e) \<in> set ?listing \<and> is_pdf n \<longrightarrow>
        (Error, ''Error al leer el archivo '' @ path_join (source_folder ?cfg) n @ '': '' @ e)
          \<in> set lg"
    by blast
  have e: "(Error, ''Error al leer el archivo '' @ path_join ''in'' ''b.pdf'' @ '': '' @ ''no PDF header'')
          \<in> set lg"
    using r(3) pdf(2) by simp
  have "length (map Inr rs :: (failure + row) list) = 2"
    by (subst r(2)) (simp add: pdf)
  then obtain r1 r2 where "rs = [r1, r2]"
    by (cases rs; cases "tl rs"; cases "tl (tl rs)") auto
  moreover have "path_join ''in'' ''b.pdf'' = ''in/b.pdf''" by (simp add: path_join_def)
  ultimately show ?thesis using r(1) e by auto
qed

text \<open>
  A run on a document with a name and a document without a page: one record, and a log
  with entries at info and debug level only.
\<close>

theorem empty_text_skipped_silently:
  "main (Folder [(''a.pdf'', Pages [''Nome: Ana'']), (''b.pdf'', Pages [])])
        Writable ''20240101_120000''
        \<lparr>source_folder = ''in'', output_folder = ''out'', fields_to_extract = [''Nome'']\<rparr>
   = \<lparr>run_log =
        [(Info, ''Iniciando procesamiento de archivos PDF''),
         (Info, ''Carpeta fuente: in''),
         (Info, ''Carpeta de salida: out''),
         (Info, ''Campos a extraer: Nome''),
         (Info, ''Procesando archivo: a.pdf''),
         (Debug, ''Campo Nome: Ana''),
         (Info, ''Procesando archivo: b.pdf''),
         (Info, ''Archivo CSV generado exitosamente: out/br_20240101_120000.csv''),
         (Info, ''Proceso completado. 1 registros procesados.'')],
      run_results = Inr [[(''Archivo'', ''a.pdf''), (''Nome'', ''Ana'')]],
      run_csv = Some \<lparr>csv_path = ''out/br_20240101_120000.csv'',
                       header = [''Archivo'', ''Nome''], rows = [[''a.pdf'', ''Ana'']]\<rparr>\<rparr>"
  by code_simp


section \<open>The pattern of an unknown field\<close>

text \<open>
  A field name that holds none of the characters with a meaning in a pattern is read as the
  sequence of its characters; the suffix of the fallback is a run of colons and white space
  followed by a group of one or more characters other than the line end.
\<close>

lemma lex_plain:
  assumes "\<forall>c \<in> set f. c \<notin> set (backslash # ''[{*+?()|.^$'')"
  shows "lex (f @ s) =
           (case lex s of Inl e \<Rightarrow> Inl e
            | Inr ts \<Rightarrow> Inr (map (\<lambda>c. T_atom (Literal c)) f @ ts))"
  using assms
proof (induction f)
  case Nil
  then show ?case by (simp split: sum.splits)
next
  case (Cons c f)
  then show ?case by (simp add: then_tokens_def split: sum.splits)
qed

lemma build_literals:
  "build (map (\<lambda>c. T_atom (Literal c)) f @ ts) (Frame g alts items) stack n =
     build ts (Frame g alts (rev (map Literal f) @ items)) stack n"
  by (induction f arbitrary: items) simp_all

lemma lex_generic_suffix:
  "lex (''[:'' @ backslash # ''s]*([^'' @ CHR 0x0A # '']+)'') =
     Inr [T_atom (In False [Ch CHR '':'', Category Cat_space]), T_repeat 0 None True,
          T_open True, T_atom (In True [Ch CHR 0x0A]), T_repeat 1 None True, T_close]"
  by code_simp

lemma compile_generic:
  assumes "\<forall>c \<in> set f. c \<notin> set (backslash # ''[{*+?()|.^$'')"
  shows "compile (generic_pattern f) =
     Inr (foldr Seq (map Literal f)
            (Seq (Repeat 0 None True (In False [Ch CHR '':'', Category Cat_space]))
               (Seq (Group (Some 1) (Seq (Repeat 1 None True (In True [Ch CHR 0x0A])) Empty))
                  Empty)), 1)"
  unfolding compile_def generic_pattern_def lex_plain [OF assms] lex_generic_suffix
  by (simp add: build_literals seq_of_def)

lemma not_newline_char: "set_matches True [Ch CHR 0x0A] c \<longleftrightarrow> c \<noteq> CHR 0x0A"
  using py_lower_punct [of "CHR 0x0A" c] by (simp add: set_matches_def py_lower_def)

lemma match_generic_tail:
  assumes "\<forall>c \<in> set sep. c = CHR '':'' \<or> py_isspace c"
    and "v \<noteq> []"
    and "\<not> (hd v = CHR '':'' \<or> py_isspace (hd v))"
    and "\<forall>c \<in> set v. c \<noteq> CHR 0x0A"
    and "post = [] \<or> hd post = CHR 0x0A"
  shows "matches
           (Seq (Repeat 0 None True (In False [Ch CHR '':'', Category Cat_space]))
               (Seq (Group (Some 1) (Seq (Repeat 1 None True (In True [Ch CHR 0x0A])) Empty))
                  Empty))
           (\<lambda>j rest' gs. Some gs) i (sep @ v @ post) gs
         = Some (gs(1 := Some v))"
proof -
  let ?S1 = "[Ch CHR '':'', Category Cat_space]"
  let ?S2 = "[Ch CHR 0x0A]"
  let ?k2 = "\<lambda>j rest' gs'. Some (gs'(1 := Some (take (j - (i + length sep)) (v @ post))))"
  have inner: "repeat (matches (In True ?S2)) 1 None True ?k2 (i + length sep) (v @ post) gs
                 = Some (gs(1 := Some v))"
  proof (rule repeat_set_greedy)
    show "\<forall>c \<in> set v. set_matches True ?S2 c" using assms(4) by (simp only: not_newline_char)
    show "post = [] \<or> \<not> set_matches True ?S2 (hd post)"
      using assms(5) by (simp only: not_newline_char) simp
    show "1 \<le> length v" using assms(2) by (cases v) auto
    show "?k2 (i + length sep + length v) post gs = Some (gs(1 := Some v))" by simp
  qed
  let ?k1 = "matches (Seq (Group (Some 1) (Seq (Repeat 1 None True (In True ?S2)) Empty)) Empty)
               (\<lambda>j rest' gs. Some gs)"
  have "repeat (matches (In False ?S1)) 0 None True ?k1 i (sep @ (v @ post)) gs
          = Some (gs(1 := Some v))"
  proof (rule repeat_set_greedy)
    show "\<forall>c \<in> set sep. set_matches False ?S1 c" using assms(1) by (simp only: separator_char)
    show "v @ post = [] \<or> \<not> set_matches False ?S1 (hd (v @ post))"
      using assms(2,3) by (simp only: separator_char) simp
    show "0 \<le> length sep" by simp
    show "?k1 (i + length sep) (v @ post) gs = Some (gs(1 := Some v))"
      using inner by simp
  qed
  then show ?thesis by simp
qed

text \<open>
  Claim C6, as the code has it. Let the field name be outside the table of known patterns and
  hold no character with a meaning in a pattern. Let the text be one in which the name, in
  any letter case, begins first at \<open>name\<close>, where it is followed by a run \<open>sep\<close> of colons
  and white space (which may run over line ends), then by a value \<open>v\<close> that is not empty,
  does not start with a colon or white space and holds no line end, and then by the end of the
  text or a line end. Then the matcher returns \<open>v\<close>, stripped and cleaned. So the first
  place where the name begins decides, and the value is what is left of the line on which
  the run of colons and white space ends.
\<close>

theorem unknown_field_value:
  assumes "map_of patterns f = None"
    and "\<forall>c \<in> set f. c \<notin> set (backslash # ''[{*+?()|.^$'')"
    and "lower name = lower f"
    and "\<forall>j < length pre. \<not> startswith (lower (drop j (pre @ name @ sep @ v @ post))) (lower f)"
    and "\<forall>c \<in> set sep. c = CHR '':'' \<or> py_isspace c"
    and "v \<noteq> [] \<and> \<not> (hd v = CHR '':'' \<or> py_isspace (hd v)) \<and> (\<forall>c \<in> set v. c \<noteq> CHR 0x0A)"
    and "post = [] \<or> hd post = CHR 0x0A"
  shows "find_field_value (pre @ name @ sep @ v @ post) f = Inr (Some (clean_value (strip v)))"
proof -
  let ?t = "Seq (Repeat 0 None True (In False [Ch CHR '':'', Category Cat_space]))
               (Seq (Group (Some 1) (Seq (Repeat 1 None True (In True [Ch CHR 0x0A])) Empty))
                  Empty)"
  let ?r = "foldr Seq (map Literal f) ?t"
  let ?final = "\<lambda>(j::nat) (rest'::string) (gs::groups). Some gs"
  let ?none = "(\<lambda>n. None) :: groups"
  let ?text = "pre @ name @ sep @ v @ post"
  have len: "length name = length f"
    using assms(3) by (metis length_map lower_def)
  have tail: "matches ?t ?final i (sep @ v @ post) ?none = Some (?none(1 := Some v))" for i
    using assms(5-7) by (intro match_generic_tail) auto
  have miss: "\<forall>j < length pre.
      matches ?r ?final (0 + j) (drop j (pre @ (name @ sep @ v @ post))) ?none = None"
    using assms(4) by (simp only: matches_literals) simp
  have "startswith (lower (name @ sep @ v @ post)) (lower f)"
    unfolding lower_append assms(3) by (rule startswith_self)
  moreover have "drop (length f) (name @ sep @ v @ post) = sep @ v @ post"
    using len by simp
  ultimately have hit: "matches ?r ?final (0 + length pre) (name @ sep @ v @ post) ?none
                          = Some (?none(1 := Some v))"
    by (simp only: matches_literals if_True tail)
  have "search_from ?r 0 ?text = Some (?none(1 := Some v))"
    using search_from_skip [OF miss] search_from_hit [OF hit] by simp
  then have "re_search (generic_pattern f) ?text
               = Inr (Some \<lparr>ngroups = 1, captured = ?none(1 := Some v)\<rparr>)"
    by (simp add: re_search_def compile_generic [OF assms(2)])
  moreover have "f \<noteq> ''PIS/PASEP/NIT''"
  proof
    assume "f = ''PIS/PASEP/NIT''"
    moreover have "map_of patterns ''PIS/PASEP/NIT'' \<noteq> None" by code_simp
    ultimately show False using assms(1) by simp
  qed
  ultimately show ?thesis
    using assms(1) by (simp add: find_field_value_def strip_group_def)
qed

lemma map_of_custom: "map_of patterns ''CustomField'' = None"
  by code_simp

theorem unknown_field_value_witness:
  "find_field_value (''Ref: 7'' @ CHR 0x0A # ''CustomField: XYZ'' @ [CHR 0x0A]) ''CustomField''
     = Inr (Some ''XYZ'')"
proof -
  have c: "clean_value (strip ''XYZ'') = ''XYZ''" by code_simp
  show ?thesis
    using unknown_field_value [where f = "''CustomField''" and name = "''CustomField''"
        and pre = "''Ref: 7'' @ [CHR 0x0A]" and sep = "'': ''" and v = "''XYZ''"
        and post = "[CHR 0x0A]"] map_of_custom c
    by (simp add: lower_def py_lower_def py_isspace_def char_of_eq_iff eq_char_of_iff nth_Cons'
          less_Suc_eq)
qed

text \<open>
  The pair \<open>CustomField: XYZ\<close> of the claim is not returned when the name occurs earlier
  in the text: the earlier occurrence gives the value.
\<close>

theorem earlier_occurrence_decides:
  "find_field_value (''CustomField: ABC'' @ CHR 0x0A # ''CustomField: XYZ'') ''CustomField''
     = Inr (Some ''ABC'')"
  by code_simp


section \<open>The identifier field and its two labels\<close>

lemma value_char:
  "set_matches False [Category Cat_digit, Ch CHR ''.'', Ch CHR ''-'', Ch CHR ''/''] c \<longleftrightarrow>
     py_isdigit c \<or> c = CHR ''.'' \<or> c = CHR ''-'' \<or> c = CHR ''/''"
  using py_lower_punct [of "CHR ''.''" c] py_lower_punct [of "CHR ''-''" c]
    py_lower_punct [of "CHR ''/''" c]
  by (simp add: set_matches_def py_lower_def)

lemma value_char_not_space:
  "py_isdigit c \<or> c = CHR ''.'' \<or> c = CHR ''-'' \<or> c = CHR ''/'' \<Longrightarrow>
   \<not> py_isspace c \<and> c \<noteq> CHR '':''"
  by (auto simp: py_isdigit_def py_isspace_def Let_def)

lemma compile_pis:
  "compile (the (map_of patterns ''PIS/PASEP/NIT'')) =
     Inr (Seq (Group (Some 1)
                 (Branch (foldr Seq (map Literal ''PIS/PASEP/NIT'') Empty)
                         (foldr Seq (map Literal ''PIS'') Empty)))
            (Seq (Repeat 0 None True (In False [Ch CHR '':'', Category Cat_space]))
               (Seq (Group (Some 2)
                      (Seq (Repeat 1 None True
                             (In False [Category Cat_digit, Ch CHR ''.'', Ch CHR ''-'',
                                        Ch CHR ''/'']))
                         Empty))
                  Empty)), 2)"
  by code_simp

lemma match_pis_value:
  assumes "\<forall>c \<in> set sep. c = CHR '':'' \<or> py_isspace c"
    and "v \<noteq> []"
    and "\<forall>c \<in> set v. py_isdigit c \<or> c = CHR ''.'' \<or> c = CHR ''-'' \<or> c = CHR ''/''"
    and "post = [] \<or> \<not> (py_isdigit (hd post) \<or> hd post = CHR ''.'' \<or> hd post = CHR ''-'' \<or>
                          hd post = CHR ''/'')"
  shows "matches
           (Seq (Repeat 0 None True (In False [Ch CHR '':'', Category Cat_space]))
               (Seq (Group (Some 2)
                      (Seq (Repeat 1 None True
                             (In False [Category Cat_digit, Ch CHR ''.'', Ch CHR ''-'',
                                        Ch CHR ''/'']))
                         Empty))
                  Empty))
           (\<lambda>j rest' gs. Some gs) i (sep @ v @ post) gs
         = Some (gs(2 := Some v))"
proof -
  let ?S1 = "[Ch CHR '':'', Category Cat_space]"
  let ?S2 = "[Category Cat_digit, Ch CHR ''.'', Ch CHR ''-'', Ch CHR ''/'']"
  let ?k2 = "\<lambda>j rest' gs'. Some (gs'(2 := Some (take (j - (i + length sep)) (v @ post))))"
  have inner: "repeat (matches (In False ?S2)) 1 None True ?k2 (i + length sep) (v @ post) gs
                 = Some (gs(2 := Some v))"
  proof (rule repeat_set_greedy)
    show "\<forall>c \<in> set v. set_matches False ?S2 c" using assms(3) by (simp only: value_char) 
    show "post = [] \<or> \<not> set_matches False ?S2 (hd post)" using assms(4) by (simp only: value_char)
    show "1 \<le> length v" using assms(2) by (cases v) auto
    show "?k2 (i + length sep + length v) post gs = Some (gs(2 := Some v))" by simp
  qed
  let ?k1 = "matches (Seq (Group (Some 2) (Seq (Repeat 1 None True (In False ?S2)) Empty)) Empty)
               (\<lambda>j rest' gs. Some gs)"
  have "repeat (matches (In False ?S1)) 0 None True ?k1 i (sep @ (v @ post)) gs
          = Some (gs(2 := Some v))"
  proof (rule repeat_set_greedy)
    show "\<forall>c \<in> set sep. set_matches False ?S1 c" using assms(1) by (simp only: separator_char)
    have "\<not> (hd v = CHR '':'' \<or> py_isspace (hd v))"
      using assms(2,3) value_char_not_space [of "hd v"] by (cases v) auto
    then show "v @ post = [] \<or> \<not> set_matches False ?S1 (hd (v @ post))"
      using assms(2) by (simp only: separator_char) simp
    show "0 \<le> length sep" by simp
    show "?k1 (i + length sep) (v @ post) gs = Some (gs(2 := Some v))"
      using inner by simp
  qed
  then show ?thesis by simp
qed

lemma match_labels:
  "matches (Seq (Group (Some 1) (Branch (foldr Seq (map Literal a) Empty)
                                        (foldr Seq (map Literal b) Empty))) t) k i rest gs =
     first_of
       (if startswith (lower rest) (lower a)
        then matches t k (i + length a) (drop (length a) rest)
               (gs(1 := Some (take (length a) rest)))
        else None)
       (if startswith (lower rest) (lower b)
        then matches t k (i + length b) (drop (length b) rest)
               (gs(1 := Some (take (length b) rest)))
        else None)"
  by (simp add: matches_literals)

lemma strip_value:
  assumes "\<forall>c \<in> set v. py_isdigit c \<or> c = CHR ''.'' \<or> c = CHR ''-'' \<or> c = CHR ''/''"
  shows "strip v = v"
proof (rule strip_id)
  show "v = [] \<or> \<not> py_isspace (hd v) \<and> \<not> py_isspace (last v)"
  proof (cases v)
    case Nil
    then show ?thesis by simp
  next
    case (Cons c cs)
    then have "hd v \<in> set v" "last v \<in> set v" by auto
    then show ?thesis using assms value_char_not_space by blast
  qed
qed

lemma find_pis:
  assumes "label = ''PIS/PASEP/NIT'' \<or>
           (label = ''PIS'' \<and> \<not> startswith (lower (sep @ v @ post)) (lower ''/PASEP/NIT''))"
    and "\<forall>j < length pre.
           \<not> startswith (lower (drop j (pre @ label @ sep @ v @ post))) (lower ''PIS'')"
    and "\<forall>c \<in> set sep. c = CHR '':'' \<or> py_isspace c"
    and "v \<noteq> []"
    and "\<forall>c \<in> set v. py_isdigit c \<or> c = CHR ''.'' \<or> c = CHR ''-'' \<or> c = CHR ''/''"
    and "post = [] \<or> \<not> (py_isdigit (hd post) \<or> hd post = CHR ''.'' \<or> hd post = CHR ''-'' \<or>
                          hd post = CHR ''/'')"
  shows "find_field_value (pre @ label @ sep @ v @ post) ''PIS/PASEP/NIT'' = Inr (Some v)"
proof -
  let ?t = "Seq (Repeat 0 None True (In False [Ch CHR '':'', Category Cat_space]))
               (Seq (Group (Some 2)
                      (Seq (Repeat 1 None True
                             (In False [Category Cat_digit, Ch CHR ''.'', Ch CHR ''-'',
                                        Ch CHR ''/'']))
                         Empty))
                  Empty)"
  let ?r = "Seq (Group (Some 1) (Branch (foldr Seq (map Literal ''PIS/PASEP/NIT'') Empty)
                                        (foldr Seq (map Literal ''PIS'') Empty))) ?t"
  let ?final = "\<lambda>(j::nat) (rest'::string) (gs::groups). Some gs"
  let ?none = "(\<lambda>n. None) :: groups"
  let ?text = "pre @ label @ sep @ v @ post"
  have tail: "matches ?t ?final i (sep @ v @ post) gs = Some (gs(2 := Some v))" for i gs
    using assms(3-6) by (rule match_pis_value)
  have long: "lower ''PIS/PASEP/NIT'' = lower ''PIS'' @ lower ''/PASEP/NIT''"
    by (simp add: lower_def)
  have miss: "\<forall>j < length pre.
      matches ?r ?final (0 + j) (drop j (pre @ (label @ sep @ v @ post))) ?none = None"
  proof (intro allI impI)
    fix j assume "j < length pre"
    then have n: "\<not> startswith (lower (drop j ?text)) (lower ''PIS'')" using assms(2) by blast
    then have "\<not> startswith (lower (drop j ?text)) (lower ''PIS/PASEP/NIT'')"
      unfolding long using startswith_append by blast
    then show "matches ?r ?final (0 + j) (drop j (pre @ (label @ sep @ v @ post))) ?none = None"
      using n by (simp only: match_labels if_False first_of_simps)
  qed
  have hit: "\<exists>g. matches ?r ?final (0 + length pre) (label @ sep @ v @ post) ?none = Some g \<and>
                  g 2 = Some v"
    using assms(1)
  proof
    assume l: "label = ''PIS/PASEP/NIT''"
    have "startswith (lower (label @ sep @ v @ post)) (lower ''PIS/PASEP/NIT'')"
      unfolding l lower_append by (rule startswith_self)
    moreover have "drop (length ''PIS/PASEP/NIT'') (label @ sep @ v @ post) = sep @ v @ post"
      unfolding l by simp
    ultimately show ?thesis
      by (simp only: match_labels if_True tail first_of_simps) simp
  next
    assume l: "label = ''PIS'' \<and> \<not> startswith (lower (sep @ v @ post)) (lower ''/PASEP/NIT'')"
    have "\<not> startswith (lower (label @ sep @ v @ post)) (lower ''PIS/PASEP/NIT'')"
      using l unfolding long by (simp only: lower_append startswith_same) simp
    moreover have "startswith (lower (label @ sep @ v @ post)) (lower ''PIS'')"
      using l by (simp add: lower_append startswith_self del: append.simps)
    moreover have "drop (length ''PIS'') (label @ sep @ v @ post) = sep @ v @ post"
      using l by simp
    ultimately show ?thesis
      by (simp only: match_labels if_True if_False tail first_of_simps) simp
  qed
  then obtain g where g: "matches ?r ?final (0 + length pre) (label @ sep @ v @ post) ?none = Some g"
    "g 2 = Some v" by blast
  have "search_from ?r 0 ?text = Some g"
    using search_from_skip [OF miss] search_from_hit [OF g(1)] by simp
  moreover have p: "map_of patterns ''PIS/PASEP/NIT'' = Some (the (map_of patterns ''PIS/PASEP/NIT''))"
    by code_simp
  ultimately have "re_search (the (map_of patterns ''PIS/PASEP/NIT'')) ?text
               = Inr (Some \<lparr>ngroups = 2, captured = g\<rparr>)"
    by (simp add: re_search_def compile_pis)
  then show ?thesis
    using g(2) strip_value [OF assms(5)]
    by (subst find_field_value_def, subst p) (simp add: strip_group_def)
qed

text \<open>
  Claim C7, as the code has it. Take a value made of digits, dots, hyphens and slashes,
  written after the label \<open>PIS/PASEP/NIT\<close> in one text and after the label \<open>PIS\<close> in
  another, each time after any run of colons and white space, and followed by the end of
  the text or by a character that a value cannot hold. If in each text the letters
  \<open>PIS\<close>, in any letter case, begin nowhere before the label, and the text after the short
  label does not go on with \<open>/PASEP/NIT\<close>, the field matcher returns that value for both
  texts. The search returns the match at the leftmost position, so an earlier \<open>PIS\<close>
  followed by a character of a value decides the result.
\<close>

theorem either_label_same_value:
  assumes "v \<noteq> []"
    and "\<forall>c \<in> set v. py_isdigit c \<or> c = CHR ''.'' \<or> c = CHR ''-'' \<or> c = CHR ''/''"
    and "\<forall>c \<in> set sep1 \<union> set sep2. c = CHR '':'' \<or> py_isspace c"
    and "\<forall>post \<in> {post1, post2}.
           post = [] \<or> \<not> (py_isdigit (hd post) \<or> hd post = CHR ''.'' \<or> hd post = CHR ''-'' \<or>
                           hd post = CHR ''/'')"
    and "\<forall>j < length pre1.
           \<not> startswith (lower (drop j (pre1 @ ''PIS/PASEP/NIT'' @ sep1 @ v @ post1))) (lower ''PIS'')"
    and "\<forall>j < length pre2.
           \<not> startswith (lower (drop j (pre2 @ ''PIS'' @ sep2 @ v @ post2))) (lower ''PIS'')"
    and "\<not> startswith (lower (sep2 @ v @ post2)) (lower ''/PASEP/NIT'')"
  shows "find_field_value (pre1 @ ''PIS/PASEP/NIT'' @ sep1 @ v @ post1) ''PIS/PASEP/NIT''
           = Inr (Some v) \<and>
         find_field_value (pre2 @ ''PIS'' @ sep2 @ v @ post2) ''PIS/PASEP/NIT''
           = Inr (Some v)"
proof
  show "find_field_value (pre1 @ ''PIS/PASEP/NIT'' @ sep1 @ v @ post1) ''PIS/PASEP/NIT''
           = Inr (Some v)"
    using assms by (intro find_pis) auto
  show "find_field_value (pre2 @ ''PIS'' @ sep2 @ v @ post2) ''PIS/PASEP/NIT'' = Inr (Some v)"
    using assms by (intro find_pis) auto
qed

theorem either_label_same_value_witness:
  "find_field_value
     (''Nome: Ana'' @ CHR 0x0A # ''PIS/PASEP/NIT: 123.45678.90-1'' @ [CHR 0x0A])
     ''PIS/PASEP/NIT'' = Inr (Some ''123.45678.90-1'') \<and>
   find_field_value
     (''Nome: Ana'' @ CHR 0x0A # ''PIS: 123.45678.90-1'' @ [CHR 0x0A])
     ''PIS/PASEP/NIT'' = Inr (Some ''123.45678.90-1'')"
  using either_label_same_value [where v = "''123.45678.90-1''" and ?sep1.0 = "'': ''"
      and ?sep2.0 = "'': ''" and ?post1.0 = "[CHR 0x0A]" and ?post2.0 = "[CHR 0x0A]"
      and ?pre1.0 = "''Nome: Ana'' @ [CHR 0x0A]" and ?pre2.0 = "''Nome: Ana'' @ [CHR 0x0A]"]
  by (simp add: lower_def py_lower_def py_isdigit_def py_isspace_def char_of_eq_iff
        eq_char_of_iff nth_Cons' less_Suc_eq)

theorem earlier_label_decides:
  "find_field_value ''PIS: 123.45678.90-1'' ''PIS/PASEP/NIT'' = Inr (Some ''123.45678.90-1'') \<and>
   find_field_value
     (''Campo PIS/PASEP/NIT'' @ CHR 0x0A # ''PIS/PASEP/NIT: 123.45678.90-1'')
     ''PIS/PASEP/NIT'' = Inr (Some ''/'')"
  by code_simp

section \<open>The placeholder for a field that was not found\<close>

text \<open>
  Claim C9, as the code has it. For each configured field the record holds the placeholder
  \<open>No encontrado\<close> when the matcher found nothing, the same placeholder when it found
  the empty string, and the value found otherwise. The caller tests the value for truth, so
  a value found empty and a value not found are stored alike.
\<close>

theorem stored_field_value:
  assumes "fill_fields text field_names record = (lg, Inr r)" and "f \<in> set field_names"
  shows "(find_field_value text f = Inr None \<longrightarrow> map_of r f = Some ''No encontrado'') \<and>
         (find_field_value text f = Inr (Some []) \<longrightarrow> map_of r f = Some ''No encontrado'') \<and>
         (\<forall>s. s \<noteq> [] \<and> find_field_value text f = Inr (Some s) \<longrightarrow> map_of r f = Some s)"
  using fill_fields_lookup [OF assms(1)] assms(2) by fastforce

theorem stored_field_value_witness:
  "fill_fields (''Nome: Ana'' @ [CHR 0x0A]) [''Nome'', ''Cargo''] [(''Archivo'', ''a.pdf'')]
     = ([(Debug, ''Campo Nome: Ana''), (Debug, ''Campo Cargo: No encontrado'')],
        Inr [(''Archivo'', ''a.pdf''), (''Nome'', ''Ana''), (''Cargo'', ''No encontrado'')])
   \<and> find_field_value (''Nome: Ana'' @ [CHR 0x0A]) ''Cargo'' = Inr None
   \<and> map_of [(''Archivo'', ''a.pdf''), (''Nome'', ''Ana''), (''Cargo'', ''No encontrado'')] ''Cargo''
       = Some ''No encontrado''"
proof -
  have run: "fill_fields (''Nome: Ana'' @ [CHR 0x0A]) [''Nome'', ''Cargo''] [(''Archivo'', ''a.pdf'')]
     = ([(Debug, ''Campo Nome: Ana''), (Debug, ''Campo Cargo: No encontrado'')],
        Inr [(''Archivo'', ''a.pdf''), (''Nome'', ''Ana''), (''Cargo'', ''No encontrado'')])"
    by code_simp
  have nf: "find_field_value (''Nome: Ana'' @ [CHR 0x0A]) ''Cargo'' = Inr None"
    by code_simp
  show ?thesis using stored_field_value [OF run, of "''Cargo''"] run nf by simp
qed

theorem blank_stored_as_not_found:
  "find_field_value (''Nome: R$'' @ [CHR 0x0A]) ''Nome'' = Inr (Some [])
   \<and> find_field_value (''Cargo: x'' @ [CHR 0x0A]) ''Nome'' = Inr None
   \<and> snd (fill_fields (''Nome: R$'' @ [CHR 0x0A]) [''Nome''] [(''Archivo'', ''a.pdf'')])
       = Inr [(''Archivo'', ''a.pdf''), (''Nome'', ''No encontrado'')]
   \<and> snd (fill_fields (''Cargo: x'' @ [CHR 0x0A]) [''Nome''] [(''Archivo'', ''a.pdf'')])
       = Inr [(''Archivo'', ''a.pdf''), (''Nome'', ''No encontrado'')]"
  by code_simp


section \<open>A run without documents\<close>

text \<open>
  Claim C8: when the source folder is absent, or lists no name that ends in \<open>.pdf\<close>,
  the batch makes one log entry, an error or a warning, and returns no record; the run
  then logs a warning and writes no CSV file.
\<close>

theorem no_documents:
  assumes "source = Absent \<or>
           (\<exists>listing. source = Folder listing \<and>
                      (\<forall>(f, content) \<in> set listing. \<not> is_pdf f))"
  shows "(\<exists>l m. (l = Error \<or> l = Warning) \<and> process_pdfs source cfg = ([(l, m)], Inr [])) \<and>
         run_results (main source out timestamp cfg) = Inr [] \<and>
         run_csv (main source out timestamp cfg) = None \<and>
         (\<exists>m. (Warning, m) \<in> set (run_log (main source out timestamp cfg)))"
proof -
  have p: "\<exists>l m. (l = Error \<or> l = Warning) \<and> process_pdfs source cfg = ([(l, m)], Inr [])"
    using assms
  proof
    assume "source = Absent"
    then show ?thesis by (simp add: process_pdfs_def)
  next
    assume "\<exists>listing. source = Folder listing \<and>
                      (\<forall>(f, content) \<in> set listing. \<not> is_pdf f)"
    then obtain listing where l: "source = Folder listing"
      "\<forall>(f, content) \<in> set listing. \<not> is_pdf f" by blast
    have "filter (\<lambda>(f, content). is_pdf f) listing = []"
      using l(2) by (auto simp: filter_empty_conv)
    then show ?thesis using l(1) by (simp add: process_pdfs_def)
  qed
  then obtain l m where "process_pdfs source cfg = ([(l, m)], Inr [])" by blast
  then have "run_results (main source out timestamp cfg) = Inr [] \<and>
         run_csv (main source out timestamp cfg) = None \<and>
         (\<exists>m. (Warning, m) \<in> set (run_log (main source out timestamp cfg)))"
    by (auto simp: main_def Let_def)
  then show ?thesis using p by blast
qed

theorem no_documents_witness:
  "run_results (main Absent Writable ''20240101_120000''
      \<lparr>source_folder = ''in'', output_folder = ''out'', fields_to_extract = [''Nome'']\<rparr>) = Inr []
   \<and> run_csv (main (Folder [(''notes.txt'', Unreadable ''not a PDF'')]) Writable ''20240101_120000''
      \<lparr>source_folder = ''in'', output_folder = ''out'', fields_to_extract = [''Nome'']\<rparr>) = None"
  using no_documents [of Absent
      "\<lparr>source_folder = ''in'', output_folder = ''out'', fields_to_extract = [''Nome'']\<rparr>"
      Writable "''20240101_120000''"]
    no_documents [of "Folder [(''notes.txt'', Unreadable ''not a PDF'')]"
      "\<lparr>source_folder = ''in'', output_folder = ''out'', fields_to_extract = [''Nome'']\<rparr>"
      Writable "''20240101_120000''"]
  by (simp add: is_pdf_def endswith_def lower_def py_lower_def)


section \<open>Cleanup when the records are written\<close>

text \<open>
  Claim C10: when the CSV file is written, every value of every record is cleaned again,
  the identifier column and the placeholder included: the cell of record \<open>i\<close> in the
  column of key \<open>k\<close> holds the cleaned form of the value stored under \<open>k\<close>. A stored
  value that holds \<open>R$\<close> or \<open>Base:\<close>, such as the name of a document, is therefore
  written in a form that differs from the stored one.
\<close>

theorem csv_values_cleaned:
  assumes "save_results_to_csv Writable timestamp results folder = (lg, Some file, path)"
    and "i < length results" and "map_of (results ! i) k = Some v"
  shows "length (rows file) = length results \<and>
         (\<exists>j < length (header file). header file ! j = k \<and>
            rows file ! i ! j = clean_value v \<and>
            (contains ''R$'' v \<or> contains ''Base:'' v \<longrightarrow> rows file ! i ! j \<noteq> v))"
proof -
  let ?names = "sort (remdups (concat (map (map fst) results)))"
  have ne: "results \<noteq> []" using assms(2) by auto
  have fl: "header file = ?names"
    "rows file = map (\<lambda>record.
        map (\<lambda>k. case map_of (map (\<lambda>(k, v). (k, clean_value v)) record) k of
                    None \<Rightarrow> '''' | Some v \<Rightarrow> v) ?names) results"
    using assms(1) ne by (auto simp: save_results_to_csv_def Let_def)
  have "k \<in> fst ` set (results ! i)" using assms(3) by (metis map_of_eq_None_iff option.distinct(1))
  then have "k \<in> set (concat (map (map fst) results))" using assms(2) by auto
  then have "k \<in> set ?names" by simp
  then obtain j where j: "j < length ?names" "?names ! j = k" by (metis in_set_conv_nth)
  have m: "map_of (map (\<lambda>(k, v). (k, clean_value v)) (results ! i)) k = Some (clean_value v)"
    using assms(3) by (simp add: map_of_map)
  have cell: "rows file ! i ! j = clean_value v"
    using fl(2) assms(2) j m by simp
  have "clean_value v \<noteq> v" if "contains ''R$'' v \<or> contains ''Base:'' v"
    using that clean_value_changes [of v] clean_value_no_terminator [of v] by metis
  then show ?thesis using fl j cell by auto
qed

theorem csv_values_cleaned_witness:
  "save_results_to_csv Writable ''20240101_120000''
     [[(''Archivo'', ''R$x.pdf''), (''Nome'', ''Ana'')]] ''out''
   = ([(Info, ''Archivo CSV generado exitosamente: out/br_20240101_120000.csv'')],
      Some \<lparr>csv_path = ''out/br_20240101_120000.csv'', header = [''Archivo'', ''Nome''],
            rows = [[''x.pdf'', ''Ana'']]\<rparr>,
      ''out/br_20240101_120000.csv'')
   \<and> (\<exists>j < length [''Archivo'', ''Nome'']. [''Archivo'', ''Nome''] ! j = ''Archivo'' \<and>
          [[''x.pdf'', ''Ana'']] ! 0 ! j \<noteq> ''R$x.pdf'')"
proof -
  have run: "save_results_to_csv Writable ''20240101_120000''
     [[(''Archivo'', ''R$x.pdf''), (''Nome'', ''Ana'')]] ''out''
   = ([(Info, ''Archivo CSV generado exitosamente: out/br_20240101_120000.csv'')],
      Some \<lparr>csv_path = ''out/br_20240101_120000.csv'', header = [''Archivo'', ''Nome''],
            rows = [[''x.pdf'', ''Ana'']]\<rparr>,
      ''out/br_20240101_120000.csv'')"
    by code_simp
  show ?thesis
    using csv_values_cleaned [OF run, of 0 "''Archivo''" "''R$x.pdf''"] run by simp blast
qed

end
